theory Spec2Isabelle
  imports Main
begin

section \<open>Python values used by the maze automaton\<close>

text \<open>
  The grid of \<^verbatim>\<open>multi_phase.py\<close> is a \<^verbatim>\<open>list[list[str]]\<close>. Rows are separate list
  objects (\<^verbatim>\<open>read_grid_from_file\<close> builds each one with its own \<^verbatim>\<open>split\<close>), so an in-place
  assignment \<^verbatim>\<open>p_grid[r][c] = v\<close> is modelled by returning the grid with that one cell
  replaced. Two exceptions can leave a function of the program: \<^verbatim>\<open>IndexError\<close> from a
  subscript, and \<^verbatim>\<open>ValueError\<close> from \<^verbatim>\<open>str()\<close> of an integer that is too long to
  print; \<^verbatim>\<open>ValueError\<close> from \<^verbatim>\<open>int()\<close> is always caught where it is raised.
  Cell labels are strings over 8-bit characters (code points below 256). Printing is not
  modelled.
\<close>

datatype error = IndexError | ValueError

type_synonym grid = "string list list"

type_synonym visitor = "grid \<Rightarrow> int \<Rightarrow> int \<Rightarrow> error + (grid \<times> int)"

text \<open>A Python subscript against a sequence of length \<open>n\<close>: \<open>-n .. -1\<close> count from the end.\<close>

definition subscript :: "nat \<Rightarrow> int \<Rightarrow> nat option" where
  "subscript n i =
     (if 0 \<le> i \<and> i < int n then Some (nat i)
      else if - int n \<le> i \<and> i < 0 then Some (nat (i + int n))
      else None)"

definition getitem :: "'a list \<Rightarrow> int \<Rightarrow> error + 'a" where
  "getitem xs i = (case subscript (length xs) i of None \<Rightarrow> Inl IndexError | Some k \<Rightarrow> Inr (xs ! k))"

definition setitem :: "'a list \<Rightarrow> int \<Rightarrow> 'a \<Rightarrow> error + 'a list" where
  "setitem xs i v =
     (case subscript (length xs) i of None \<Rightarrow> Inl IndexError | Some k \<Rightarrow> Inr (xs[k := v]))"

text \<open>\<^verbatim>\<open>p_grid[r][c]\<close> and \<^verbatim>\<open>p_grid[r][c] = v\<close>.\<close>

definition cell :: "grid \<Rightarrow> int \<Rightarrow> int \<Rightarrow> error + string" where
  "cell g r c = (case getitem g r of Inl e \<Rightarrow> Inl e | Inr row \<Rightarrow> getitem row c)"

definition set_cell :: "grid \<Rightarrow> int \<Rightarrow> int \<Rightarrow> string \<Rightarrow> error + grid" where
  "set_cell g r c v =
     (case getitem g r of
        Inl e \<Rightarrow> Inl e
      | Inr row \<Rightarrow> (case setitem row c v of Inl e \<Rightarrow> Inl e | Inr row' \<Rightarrow> setitem g r row'))"

subsection \<open>\<^verbatim>\<open>int(str)\<close> and \<^verbatim>\<open>str(int)\<close>\<close>

text \<open>
  \<^verbatim>\<open>int(s)\<close> in base 10, as CPython 3.11 computes it: surrounding whitespace is dropped,
  one sign is allowed, then digits, where single underscores may separate digits.
  \<open>None\<close> stands for \<^verbatim>\<open>ValueError\<close>. The whitespace that \<^verbatim>\<open>int()\<close> drops is tab,
  line feed, vertical tab, form feed, carriage return, space, and the code points 133 and
  160; the separators 28 to 31, which \<^verbatim>\<open>str.isspace\<close> accepts, are not dropped.
  Both conversions refuse more than 4300 digits (the default of
  \<^verbatim>\<open>sys.get_int_max_str_digits()\<close>): \<^verbatim>\<open>int()\<close> counts the digit characters of the
  string, leading zeros included, \<^verbatim>\<open>str()\<close> the digits of the result without its sign.
\<close>

definition max_str_digits :: nat where
  "max_str_digits = 4300"

definition py_isspace :: "char \<Rightarrow> bool" where
  "py_isspace ch \<longleftrightarrow> (of_char ch :: nat) \<in> set [9, 10, 11, 12, 13, 32, 133, 160]"

definition py_isdigit :: "char \<Rightarrow> bool" where
  "py_isdigit ch \<longleftrightarrow> ch \<in> set ''0123456789''"

definition digit_value :: "char \<Rightarrow> int" where
  "digit_value ch = int (of_char ch) - 48"

fun int_digits :: "int \<Rightarrow> string \<Rightarrow> int option" where
  "int_digits acc [] = Some acc"
| "int_digits acc [u] = (if py_isdigit u then Some (10 * acc + digit_value u) else None)"
| "int_digits acc (u # d # cs) =
     (if py_isdigit u then int_digits (10 * acc + digit_value u) (d # cs)
      else if u = CHR ''_'' \<and> py_isdigit d then int_digits (10 * acc + digit_value d) cs
      else None)"

definition int_unsigned :: "string \<Rightarrow> int option" where
  "int_unsigned s =
     (if length (filter py_isdigit s) > max_str_digits then None
      else (case s of [] \<Rightarrow> None
            | d # cs \<Rightarrow> if py_isdigit d then int_digits (digit_value d) cs else None))"

definition py_strip :: "string \<Rightarrow> string" where
  "py_strip s = rev (dropWhile py_isspace (rev (dropWhile py_isspace s)))"

definition py_int :: "string \<Rightarrow> int option" where
  "py_int s =
     (case py_strip s of
        [] \<Rightarrow> None
      | sg # ds \<Rightarrow>
          if sg = CHR ''-'' then map_option uminus (int_unsigned ds)
          else if sg = CHR ''+'' then int_unsigned ds
          else int_unsigned (sg # ds))"

fun str_nat :: "nat \<Rightarrow> string" where
  "str_nat n =
     (if n < 10 then [''0123456789'' ! n]
      else str_nat (n div 10) @ [''0123456789'' ! (n mod 10)])"

declare str_nat.simps [simp del]

text \<open>The decimal text of an integer, and \<^verbatim>\<open>str(i)\<close>, which refuses to print it when
  it has too many digits.\<close>

definition decimal :: "int \<Rightarrow> string" where
  "decimal i = (if i < 0 then CHR ''-'' # str_nat (nat (- i)) else str_nat (nat i))"

definition digit_count :: "int \<Rightarrow> nat" where
  "digit_count i = length (str_nat (nat \<bar>i\<bar>))"

definition py_str :: "int \<Rightarrow> error + string" where
  "py_str i = (if digit_count i > max_str_digits then Inl ValueError else Inr (decimal i))"

section \<open>The cell rules\<close>

subsection \<open>\<^verbatim>\<open>visitor_for_adjacency\<close>\<close>

definition counted :: "error + string \<Rightarrow> error + int" where
  "counted nb =
     (case nb of Inl e \<Rightarrow> Inl e
      | Inr s \<Rightarrow> Inr (if s \<in> set [''S'', ''E'', '' ''] then 1 else 0))"

definition adjacent_up :: "grid \<Rightarrow> int \<Rightarrow> int \<Rightarrow> error + int" where
  "adjacent_up g r c = (if r - 1 < 0 then Inr 1 else counted (cell g (r - 1) c))"

definition adjacent_left :: "grid \<Rightarrow> int \<Rightarrow> int \<Rightarrow> error + int" where
  "adjacent_left g r c = (if c - 1 < 0 then Inr 1 else counted (cell g r (c - 1)))"

definition adjacent_right :: "grid \<Rightarrow> int \<Rightarrow> int \<Rightarrow> error + int" where
  "adjacent_right g r c =
     (case getitem g r of Inl e \<Rightarrow> Inl e
      | Inr row \<Rightarrow> if c + 1 \<ge> int (length row) then Inr 1 else counted (cell g r (c + 1)))"

definition adjacent_down :: "grid \<Rightarrow> int \<Rightarrow> int \<Rightarrow> error + int" where
  "adjacent_down g r c = (if r + 1 \<ge> int (length g) then Inr 1 else counted (cell g (r + 1) c))"

definition visitor_for_adjacency :: visitor where
  "visitor_for_adjacency p_grid p_row p_column =
     (case cell p_grid p_row p_column of
        Inl e \<Rightarrow> Inl e
      | Inr here \<Rightarrow>
          if here \<noteq> ''X'' then
            (case adjacent_up p_grid p_row p_column of Inl e \<Rightarrow> Inl e | Inr u \<Rightarrow>
            (case adjacent_left p_grid p_row p_column of Inl e \<Rightarrow> Inl e | Inr l \<Rightarrow>
            (case adjacent_right p_grid p_row p_column of Inl e \<Rightarrow> Inl e | Inr rt \<Rightarrow>
            (case adjacent_down p_grid p_row p_column of Inl e \<Rightarrow> Inl e | Inr d \<Rightarrow>
               Inr (p_grid, 0 + u + l + rt + d)))))
          else Inr (p_grid, 0))"

subsection \<open>\<^verbatim>\<open>visitor_for_length\<close>\<close>

definition visitor_for_length :: visitor where
  "visitor_for_length p_grid p_row p_column =
     (case cell p_grid p_row p_column of
        Inl e \<Rightarrow> Inl e
      | Inr here \<Rightarrow> Inr (p_grid, case py_int here of Some l_length \<Rightarrow> l_length | None \<Rightarrow> - 1))"

subsection \<open>\<^verbatim>\<open>visitor_for_path\<close>\<close>

definition visitor_for_path :: visitor where
  "visitor_for_path p_grid p_row p_column =
     (case visitor_for_adjacency p_grid p_row p_column of
        Inl e \<Rightarrow> Inl e
      | Inr (g, l_open_adjacent) \<Rightarrow>
          if l_open_adjacent = 1 then
            (case set_cell g p_row p_column ''X'' of Inl e \<Rightarrow> Inl e | Inr g' \<Rightarrow> Inr (g', 1))
          else Inr (g, 0))"

subsection \<open>\<^verbatim>\<open>visitor_for_path_length\<close>\<close>

text \<open>What one existing neighbour appends to \<^verbatim>\<open>l_adjacent_lengths\<close>.\<close>

definition appended :: "error + string \<Rightarrow> error + int list" where
  "appended nb =
     (case nb of Inl e \<Rightarrow> Inl e
      | Inr s \<Rightarrow>
          if s = ''S'' then Inr [1]
          else (case py_int s of Some l_length \<Rightarrow> Inr [l_length + 1] | None \<Rightarrow> Inr []))"

definition lengths_up :: "grid \<Rightarrow> int \<Rightarrow> int \<Rightarrow> error + int list" where
  "lengths_up g r c = (if r - 1 \<ge> 0 then appended (cell g (r - 1) c) else Inr [])"

definition lengths_left :: "grid \<Rightarrow> int \<Rightarrow> int \<Rightarrow> error + int list" where
  "lengths_left g r c = (if c - 1 \<ge> 0 then appended (cell g r (c - 1)) else Inr [])"

definition lengths_right :: "grid \<Rightarrow> int \<Rightarrow> int \<Rightarrow> error + int list" where
  "lengths_right g r c =
     (case getitem g r of Inl e \<Rightarrow> Inl e
      | Inr row \<Rightarrow> if c + 1 < int (length row) then appended (cell g r (c + 1)) else Inr [])"

definition lengths_down :: "grid \<Rightarrow> int \<Rightarrow> int \<Rightarrow> error + int list" where
  "lengths_down g r c = (if r + 1 < int (length g) then appended (cell g (r + 1) c) else Inr [])"

definition adjacent_lengths :: "grid \<Rightarrow> int \<Rightarrow> int \<Rightarrow> error + int list" where
  "adjacent_lengths g r c =
     (case lengths_up g r c of Inl e \<Rightarrow> Inl e | Inr u \<Rightarrow>
     (case lengths_left g r c of Inl e \<Rightarrow> Inl e | Inr l \<Rightarrow>
     (case lengths_right g r c of Inl e \<Rightarrow> Inl e | Inr rt \<Rightarrow>
     (case lengths_down g r c of Inl e \<Rightarrow> Inl e | Inr d \<Rightarrow>
        Inr (u @ l @ rt @ d)))))"

definition visitor_for_path_length :: visitor where
  "visitor_for_path_length p_grid p_row p_column =
     (case cell p_grid p_row p_column of
        Inl e \<Rightarrow> Inl e
      | Inr here \<Rightarrow>
          if here \<notin> set [''X'', ''S'', ''E''] then
            (case (if here = '' '' then adjacent_lengths p_grid p_row p_column else Inr []) of
               Inl e \<Rightarrow> Inl e
             | Inr l_adjacent_lengths \<Rightarrow>
                 if length l_adjacent_lengths > 0 then
                   (case py_str (Min (set l_adjacent_lengths)) of
                      Inl e \<Rightarrow> Inl e
                    | Inr l_minimum \<Rightarrow>
                        (case set_cell p_grid p_row p_column l_minimum of
                           Inl e \<Rightarrow> Inl e
                         | Inr g' \<Rightarrow> Inr (g', if l_minimum \<noteq> here then 1 else 0)))
                 else Inr (p_grid, 0))
          else Inr (p_grid, 0))"

section \<open>The runners\<close>

text \<open>
  Both runners contain the same pair of nested \<^verbatim>\<open>for\<close> loops over
  \<^verbatim>\<open>range(len(p_grid))\<close> and \<^verbatim>\<open>range(len(p_grid[l_row]))\<close>; they differ in how the
  visitor's value enters the accumulator (\<^verbatim>\<open>max\<close> or \<^verbatim>\<open>+=\<close>), which is the
  parameter \<open>f\<close> here. The row range is fixed when the outer loop starts, the column range
  when each row starts.
\<close>

fun visit_columns ::
  "(int \<Rightarrow> int \<Rightarrow> int) \<Rightarrow> visitor \<Rightarrow> nat \<Rightarrow> nat list \<Rightarrow> grid \<Rightarrow> int \<Rightarrow> error + (grid \<times> int)" where
  "visit_columns f v r [] g acc = Inr (g, acc)"
| "visit_columns f v r (c # cs) g acc =
     (case v g (int r) (int c) of
        Inl e \<Rightarrow> Inl e
      | Inr (g', x) \<Rightarrow> visit_columns f v r cs g' (f acc x))"

fun visit_rows ::
  "(int \<Rightarrow> int \<Rightarrow> int) \<Rightarrow> visitor \<Rightarrow> nat list \<Rightarrow> grid \<Rightarrow> int \<Rightarrow> error + (grid \<times> int)" where
  "visit_rows f v [] g acc = Inr (g, acc)"
| "visit_rows f v (r # rs) g acc =
     (case getitem g (int r) of
        Inl e \<Rightarrow> Inl e
      | Inr row \<Rightarrow>
          (case visit_columns f v r [0..<length row] g acc of
             Inl e \<Rightarrow> Inl e
           | Inr (g', acc') \<Rightarrow> visit_rows f v rs g' acc'))"

definition grid_pass ::
  "(int \<Rightarrow> int \<Rightarrow> int) \<Rightarrow> visitor \<Rightarrow> grid \<Rightarrow> int \<Rightarrow> error + (grid \<times> int)" where
  "grid_pass f v g acc = visit_rows f v [0..<length g] g acc"

subsection \<open>\<^verbatim>\<open>apply_visitor_compute_max\<close>\<close>

text \<open>
  The \<^verbatim>\<open>while\<close> loop tests \<^verbatim>\<open>l_loops == 0 or l_changes != 0\<close>; its body sets
  \<^verbatim>\<open>l_changes\<close> to 0 and never adds to it, so the measure below decreases.
\<close>

function compute_max_loop :: "visitor \<Rightarrow> nat \<Rightarrow> int \<Rightarrow> int \<Rightarrow> grid \<Rightarrow> error + (grid \<times> int)" where
  "compute_max_loop v l_loops l_changes l_max g =
     (if l_loops = 0 \<or> l_changes \<noteq> 0 then
        (case grid_pass max v g l_max of
           Inl e \<Rightarrow> Inl e
         | Inr (g', l_max') \<Rightarrow> compute_max_loop v (l_loops + 1) 0 l_max' g')
      else Inr (g, l_max))"
  by pat_completeness auto
termination
  by (relation "measure (\<lambda>(v, l_loops, l_changes, l_max, g). if l_loops = 0 \<or> l_changes \<noteq> 0 then 1 else 0)")
     auto

declare compute_max_loop.simps [simp del]

definition apply_visitor_compute_max :: "grid \<Rightarrow> visitor \<Rightarrow> error + (grid \<times> int)" where
  "apply_visitor_compute_max p_grid p_visitor_fn = compute_max_loop p_visitor_fn 0 0 0 p_grid"

subsection \<open>\<^verbatim>\<open>apply_visitor_until_stable\<close>\<close>

text \<open>
  For an arbitrary visitor this loop need not end, so it is a partial function:
  \<open>None\<close> is the run that never returns.
\<close>

partial_function (option) stable_loop :: "visitor \<Rightarrow> nat \<Rightarrow> int \<Rightarrow> grid \<Rightarrow> (error + grid) option" where
  "stable_loop v l_loops l_changes g =
     (if l_loops = 0 \<or> l_changes \<noteq> 0 then
        (case grid_pass (+) v g 0 of
           Inl e \<Rightarrow> Some (Inl e)
         | Inr (g', l_changes') \<Rightarrow> stable_loop v (l_loops + 1) l_changes' g')
      else Some (Inr g))"

definition apply_visitor_until_stable :: "grid \<Rightarrow> visitor \<Rightarrow> (error + grid) option" where
  "apply_visitor_until_stable p_grid p_visitor_fn = stable_loop p_visitor_fn 0 0 p_grid"

subsection \<open>\<^verbatim>\<open>break_loops\<close>\<close>

text \<open>The body of the two loops of \<^verbatim>\<open>break_loops\<close>, as a visitor without a value.\<close>

definition break_visitor :: "string \<Rightarrow> visitor" where
  "break_visitor p_max p_grid l_row l_column =
     (case cell p_grid l_row l_column of
        Inl e \<Rightarrow> Inl e
      | Inr here \<Rightarrow>
          if here = p_max then
            (case set_cell p_grid l_row l_column ''X'' of Inl e \<Rightarrow> Inl e | Inr g' \<Rightarrow> Inr (g', 0))
          else
            (case py_int here of
               Some l_path_length \<Rightarrow>
                 (case set_cell p_grid l_row l_column '' '' of Inl e \<Rightarrow> Inl e | Inr g' \<Rightarrow> Inr (g', 0))
             | None \<Rightarrow> Inr (p_grid, 0)))"

definition break_loops :: "grid \<Rightarrow> string \<Rightarrow> error + grid" where
  "break_loops p_grid p_max =
     (case grid_pass (\<lambda>a x. a) (break_visitor p_max) p_grid 0 of
        Inl e \<Rightarrow> Inl e
      | Inr (g', _) \<Rightarrow> Inr g')"

section \<open>The main loop\<close>

datatype step = Again grid | Done grid

definition loop_body :: "grid \<Rightarrow> (error + step) option" where
  "loop_body l_grid =
     (case apply_visitor_until_stable l_grid visitor_for_path of
        None \<Rightarrow> None
      | Some (Inl e) \<Rightarrow> Some (Inl e)
      | Some (Inr g1) \<Rightarrow>
          (case apply_visitor_compute_max g1 visitor_for_adjacency of
             Inl e \<Rightarrow> Some (Inl e)
           | Inr (g2, l_max_adjacency) \<Rightarrow>
               if l_max_adjacency > 2 then
                 (case apply_visitor_until_stable g2 visitor_for_path_length of
                    None \<Rightarrow> None
                  | Some (Inl e) \<Rightarrow> Some (Inl e)
                  | Some (Inr g3) \<Rightarrow>
                      (case apply_visitor_compute_max g3 visitor_for_length of
                         Inl e \<Rightarrow> Some (Inl e)
                       | Inr (g4, l_max_path_length) \<Rightarrow>
                           (case py_str l_max_path_length of
                              Inl e \<Rightarrow> Some (Inl e)
                            | Inr p_max \<Rightarrow>
                                (case break_loops g4 p_max of
                                   Inl e \<Rightarrow> Some (Inl e)
                                 | Inr g5 \<Rightarrow> Some (Inr (Again g5))))))
               else Some (Inr (Done g2))))"

partial_function (option) main_loop :: "grid \<Rightarrow> (error + grid) option" where
  "main_loop l_grid =
     (case loop_body l_grid of
        None \<Rightarrow> None
      | Some (Inl e) \<Rightarrow> Some (Inl e)
      | Some (Inr (Again g)) \<Rightarrow> main_loop g
      | Some (Inr (Done g)) \<Rightarrow> Some (Inr g))"

definition main :: "grid \<Rightarrow> (error + grid) option" where
  "main l_grid = main_loop l_grid"

declare stable_loop.simps [code]
declare main_loop.simps [code]

section \<open>The HTML variant\<close>

text \<open>
  \<^verbatim>\<open>multi_phase_html.py\<close> repeats the cell rules, \<^verbatim>\<open>apply_visitor_compute_max\<close> and
  \<^verbatim>\<open>break_loops\<close> of \<^verbatim>\<open>multi_phase.py\<close> character for character, so the definitions
  above stand for both files. It differs in \<^verbatim>\<open>apply_visitor_until_stable\<close> and
  \<^verbatim>\<open>main\<close>, which call \<^verbatim>\<open>html_svg_write_matrix\<close>. Of that function the model keeps
  every subscript it evaluates and, as its output, the class and text of each cell it prints.
\<close>

definition svg_cell :: "string \<Rightarrow> error + (string \<times> string)" where
  "svg_cell l_output =
     (if l_output = ''E'' then Inr (''destination'', l_output)
      else if l_output = ''S'' then Inr (''start'', l_output)
      else (case getitem l_output 0 of
              Inl e \<Rightarrow> Inl e
            | Inr ch \<Rightarrow>
                if ch \<in> set '' 123456789'' then Inr (''empty'', l_output)
                else Inr (''blocked'', '' '')))"

fun svg_columns :: "grid \<Rightarrow> nat \<Rightarrow> nat list \<Rightarrow> error + (string \<times> string) list" where
  "svg_columns g r [] = Inr []"
| "svg_columns g r (c # cs) =
     (case cell g (int r) (int c) of Inl e \<Rightarrow> Inl e | Inr s \<Rightarrow>
     (case svg_cell s of Inl e \<Rightarrow> Inl e | Inr x \<Rightarrow>
     (case svg_columns g r cs of Inl e \<Rightarrow> Inl e | Inr xs \<Rightarrow> Inr (x # xs))))"

fun svg_rows :: "grid \<Rightarrow> nat list \<Rightarrow> error + (string \<times> string) list" where
  "svg_rows g [] = Inr []"
| "svg_rows g (r # rs) =
     (case getitem g 0 of Inl e \<Rightarrow> Inl e | Inr first \<Rightarrow>
     (case svg_columns g r [0..<length first] of Inl e \<Rightarrow> Inl e | Inr xs \<Rightarrow>
     (case svg_rows g rs of Inl e \<Rightarrow> Inl e | Inr ys \<Rightarrow> Inr (xs @ ys))))"

definition html_svg_write_matrix :: "grid \<Rightarrow> error + (string \<times> string) list" where
  "html_svg_write_matrix p_grid =
     (case getitem p_grid 0 of
        Inl e \<Rightarrow> Inl e
      | Inr first \<Rightarrow> svg_rows p_grid [0..<length p_grid])"

partial_function (option) html_stable_loop ::
  "visitor \<Rightarrow> nat \<Rightarrow> int \<Rightarrow> grid \<Rightarrow> (error + grid) option" where
  "html_stable_loop v l_loops l_changes g =
     (if l_loops = 0 \<or> l_changes \<noteq> 0 then
        (case grid_pass (+) v g 0 of
           Inl e \<Rightarrow> Some (Inl e)
         | Inr (g', l_changes') \<Rightarrow>
             (case html_svg_write_matrix g' of
                Inl e \<Rightarrow> Some (Inl e)
              | Inr out \<Rightarrow> html_stable_loop v (l_loops + 1) l_changes' g'))
      else Some (Inr g))"

definition html_apply_visitor_until_stable :: "grid \<Rightarrow> visitor \<Rightarrow> (error + grid) option" where
  "html_apply_visitor_until_stable p_grid p_visitor_fn = html_stable_loop p_visitor_fn 0 0 p_grid"

definition html_loop_body :: "grid \<Rightarrow> (error + step) option" where
  "html_loop_body l_grid =
     (case html_apply_visitor_until_stable l_grid visitor_for_path of
        None \<Rightarrow> None
      | Some (Inl e) \<Rightarrow> Some (Inl e)
      | Some (Inr g1) \<Rightarrow>
          (case apply_visitor_compute_max g1 visitor_for_adjacency of
             Inl e \<Rightarrow> Some (Inl e)
           | Inr (g2, l_max_adjacency) \<Rightarrow>
               if l_max_adjacency > 2 then
                 (case html_apply_visitor_until_stable g2 visitor_for_path_length of
                    None \<Rightarrow> None
                  | Some (Inl e) \<Rightarrow> Some (Inl e)
                  | Some (Inr g3) \<Rightarrow>
                      (case apply_visitor_compute_max g3 visitor_for_length of
                         Inl e \<Rightarrow> Some (Inl e)
                       | Inr (g4, l_max_path_length) \<Rightarrow>
                           (case py_str l_max_path_length of
                              Inl e \<Rightarrow> Some (Inl e)
                            | Inr p_max \<Rightarrow>
                                (case break_loops g4 p_max of
                                   Inl e \<Rightarrow> Some (Inl e)
                                 | Inr g5 \<Rightarrow>
                                     (case html_svg_write_matrix g5 of
                                        Inl e \<Rightarrow> Some (Inl e)
                                      | Inr out \<Rightarrow> Some (Inr (Again g5)))))))
               else Some (Inr (Done g2))))"

partial_function (option) html_main_loop :: "grid \<Rightarrow> (error + grid) option" where
  "html_main_loop l_grid =
     (case html_loop_body l_grid of
        None \<Rightarrow> None
      | Some (Inl e) \<Rightarrow> Some (Inl e)
      | Some (Inr (Again g)) \<Rightarrow> html_main_loop g
      | Some (Inr (Done g)) \<Rightarrow> Some (Inr g))"

definition html_main :: "grid \<Rightarrow> (error + grid) option" where
  "html_main l_grid =
     (case html_svg_write_matrix l_grid of
        Inl e \<Rightarrow> Some (Inl e)
      | Inr out \<Rightarrow>
          (case html_main_loop l_grid of
             None \<Rightarrow> None
           | Some (Inl e) \<Rightarrow> Some (Inl e)
           | Some (Inr g) \<Rightarrow>
               (case html_svg_write_matrix g of Inl e \<Rightarrow> Some (Inl e) | Inr out' \<Rightarrow> Some (Inr g))))"

declare html_stable_loop.simps [code]
declare html_main_loop.simps [code]

section \<open>Vocabulary of the specification\<close>

text \<open>
  The definitions of this section follow the words of the specification, not the code:
  they are what the code is compared with.
\<close>

definition rectangular :: "grid \<Rightarrow> bool" where
  "rectangular g \<longleftrightarrow> (\<forall>row \<in> set g. length row = length (hd g))"

definition in_grid :: "grid \<Rightarrow> int \<Rightarrow> int \<Rightarrow> bool" where
  "in_grid g r c \<longleftrightarrow> 0 \<le> r \<and> r < int (length g) \<and> 0 \<le> c \<and> c < int (length (g ! nat r))"

definition label :: "grid \<Rightarrow> int \<Rightarrow> int \<Rightarrow> string" where
  "label g r c = g ! nat r ! nat c"

definition directions :: "(int \<times> int) list" where
  "directions = [(- 1, 0), (0, - 1), (0, 1), (1, 0)]"

text \<open>
  The number of orthogonal directions that are off-grid or point to a neighbour labelled
  START, END or OPEN.
\<close>

definition open_directions :: "grid \<Rightarrow> int \<Rightarrow> int \<Rightarrow> int" where
  "open_directions g r c =
     int (length (filter
       (\<lambda>(dr, dc). \<not> in_grid g (r + dr) (c + dc) \<or> label g (r + dr) (c + dc) \<in> set [''S'', ''E'', '' ''])
       directions))"

text \<open>
  The candidate a neighbour's label gives the distance rule: 1 for START, \<open>n + 1\<close> for a
  label that parses as the integer \<open>n\<close>, none otherwise; and the candidates of all
  existing neighbours of a cell.
\<close>

definition candidate :: "string \<Rightarrow> int list" where
  "candidate s = (if s = ''S'' then [1] else case py_int s of Some n \<Rightarrow> [n + 1] | None \<Rightarrow> [])"

definition candidates :: "grid \<Rightarrow> int \<Rightarrow> int \<Rightarrow> int list" where
  "candidates g r c =
     concat (map (\<lambda>(dr, dc). if in_grid g (r + dr) (c + dc) then candidate (label g (r + dr) (c + dc)) else [])
       directions)"

text \<open>All cells of a grid, row by row.\<close>

definition cells :: "grid \<Rightarrow> (nat \<times> nat) list" where
  "cells g = concat (map (\<lambda>r. map (Pair r) [0..<length (g ! r)]) [0..<length g])"

text \<open>What the loop breaker does to one label.\<close>

definition broken :: "string \<Rightarrow> string \<Rightarrow> string" where
  "broken p_max s = (if s = p_max then ''X'' else case py_int s of Some n \<Rightarrow> '' '' | None \<Rightarrow> s)"

text \<open>
  A grid that \<^verbatim>\<open>html_svg_write_matrix\<close> can draw: it has a first row, no row is shorter
  than the first, and no label in the drawn columns is the empty string.
\<close>

definition renderable :: "grid \<Rightarrow> bool" where
  "renderable g \<longleftrightarrow>
     g \<noteq> [] \<and> (\<forall>r < length g. length (g ! 0) \<le> length (g ! r) \<and> (\<forall>c < length (g ! 0). g ! r ! c \<noteq> []))"

text \<open>
  The value of RawDistanceRule and of AdjacencyRule at a cell, in the specification's
  words: the label parsed as an integer if numeric, else -1; and 0 for a wall, else the
  number of open directions.
\<close>

definition raw_distance :: "grid \<Rightarrow> nat \<Rightarrow> nat \<Rightarrow> int" where
  "raw_distance g r c = (case py_int (g ! r ! c) of Some n \<Rightarrow> n | None \<Rightarrow> - 1)"

definition adjacency :: "grid \<Rightarrow> nat \<Rightarrow> nat \<Rightarrow> int" where
  "adjacency g r c = (if g ! r ! c = ''X'' then 0 else open_directions g (int r) (int c))"

text \<open>The cells that are not walls: what the dead-end rule can still erode.\<close>

definition non_walls :: "grid \<Rightarrow> (nat \<times> nat) set" where
  "non_walls g = {(r, c). r < length g \<and> c < length (g ! r) \<and> g ! r ! c \<noteq> ''X''}"

text \<open>A label of 4300 nines: the longest text that \<^verbatim>\<open>int()\<close> still parses.\<close>

definition nines :: string where
  "nines = replicate 4300 CHR ''9''"

subsection \<open>Example mazes\<close>

text \<open>A maze whose START and END sit at dead ends of a room with a loop.\<close>

definition dead_end_maze :: grid where
  "dead_end_maze =
     [[''X'', ''X'', ''X'', ''X'', ''X''],
      [''X'', ''S'', ''X'', ''E'', ''X''],
      [''X'', '' '', '' '', '' '', ''X''],
      [''X'', '' '', '' '', '' '', ''X''],
      [''X'', ''X'', ''X'', ''X'', ''X'']]"

text \<open>The same maze after its first round of the main loop.\<close>

definition stuck_maze :: grid where
  "stuck_maze =
     [[''X'', ''X'', ''X'', ''X'', ''X''],
      [''X'', ''X'', ''X'', ''X'', ''X''],
      [''X'', '' '', '' '', '' '', ''X''],
      [''X'', '' '', '' '', '' '', ''X''],
      [''X'', ''X'', ''X'', ''X'', ''X'']]"


section \<open>Subscripts inside the grid\<close>

lemma subscript_nat [simp]: "i < n \<Longrightarrow> subscript n (int i) = Some i"
  by (simp add: subscript_def)

lemma subscript_bound: "subscript n i = Some k \<Longrightarrow> k < n"
  by (auto simp: subscript_def split: if_splits)

lemma getitem_nat [simp]: "i < length xs \<Longrightarrow> getitem xs (int i) = Inr (xs ! i)"
  by (simp add: getitem_def)

lemma getitem_Inr: "getitem xs i = Inr x \<Longrightarrow> \<exists>k < length xs. subscript (length xs) i = Some k \<and> x = xs ! k"
  by (auto simp: getitem_def split: option.splits dest: subscript_bound)

lemma getitem_int_Inr: "getitem xs (int i) = Inr x \<Longrightarrow> i < length xs \<and> x = xs ! i"
  by (auto simp: getitem_def subscript_def split: if_splits)

lemma cell_nat [simp]:
  "r < length g \<Longrightarrow> c < length (g ! r) \<Longrightarrow> cell g (int r) (int c) = Inr (g ! r ! c)"
  by (simp add: cell_def)

lemma set_cell_nat [simp]:
  "r < length g \<Longrightarrow> c < length (g ! r) \<Longrightarrow>
     set_cell g (int r) (int c) v = Inr (g[r := (g ! r)[c := v]])"
  by (simp add: set_cell_def setitem_def)

lemma cell_int_Inr:
  "cell g (int r) (int c) = Inr s \<Longrightarrow> r < length g \<and> c < length (g ! r) \<and> s = g ! r ! c"
  by (auto simp: cell_def split: sum.splits dest!: getitem_int_Inr)

text \<open>An assignment that succeeds replaces exactly the cell that a read at the same
  subscripts returns.\<close>

lemma set_cell_Inr:
  assumes "set_cell g r c v = Inr g'"
  shows "\<exists>i j. i < length g \<and> j < length (g ! i) \<and> cell g r c = Inr (g ! i ! j)
           \<and> g' = g[i := (g ! i)[j := v]]"
proof -
  from assms obtain row row' where row: "getitem g r = Inr row"
    and row': "setitem row c v = Inr row'" and g': "setitem g r row' = Inr g'"
    by (auto simp: set_cell_def split: sum.splits)
  from row obtain i where i: "i < length g" "subscript (length g) r = Some i" "row = g ! i"
    by (auto dest: getitem_Inr)
  from row' obtain j where j: "subscript (length row) c = Some j" "row' = row[j := v]"
    by (auto simp: setitem_def split: option.splits)
  have "j < length (g ! i)" using j(1) i(3) by (auto dest: subscript_bound)
  moreover have "cell g r c = Inr (g ! i ! j)"
    using row i j by (simp add: cell_def getitem_def)
  moreover have "g' = g[i := (g ! i)[j := v]]"
    using g' i j by (simp add: setitem_def)
  ultimately show ?thesis using i(1) by blast
qed

lemma nth_update_cell:
  "i < length g \<Longrightarrow> j < length (g ! i) \<Longrightarrow>
     g[r := (g ! r)[c := v]] ! i ! j = (if i = r \<and> j = c then v else g ! i ! j)"
  by (cases "i = r") (auto simp: nth_list_update)

lemma length_update_cell [simp]: "length (g[r := (g ! r)[c := v]]) = length g"
  by simp

lemma length_row_update_cell [simp]: "length (g[r := (g ! r)[c := v]] ! i) = length (g ! i)"
  by (cases "r < length g") (auto simp: nth_list_update list_update_beyond)

lemma rectangular_nth:
  "rectangular g \<Longrightarrow> r < length g \<Longrightarrow> r' < length g \<Longrightarrow> length (g ! r) = length (g ! r')"
  by (simp add: rectangular_def)

lemma int_succ: "int n + 1 = int (Suc n)"
  by simp


section \<open>Decimal strings\<close>

lemma str_nat_digits: "set (str_nat n) \<subseteq> set ''0123456789''"
proof (induction n rule: str_nat.induct)
  case (1 n)
  have d: "k < 10 \<Longrightarrow> ''0123456789'' ! k \<in> set ''0123456789''" for k
    by (rule nth_mem) simp
  show ?case
  proof (cases "n < 10")
    case True
    then show ?thesis using d [of n] by (subst str_nat.simps) simp
  next
    case False
    have "n mod 10 < 10" by simp
    then show ?thesis using False 1 d [of "n mod 10"] by (subst str_nat.simps) simp
  qed
qed

lemma str_nat_nonempty: "str_nat n \<noteq> []"
  by (subst str_nat.simps) simp

lemma decimal_nonempty: "decimal i \<noteq> []"
  by (simp add: decimal_def str_nat_nonempty)

lemma decimal_not_open: "decimal i \<noteq> '' ''"
proof
  assume a: "decimal i = '' ''"
  show False
  proof (cases "i < 0")
    case True
    then show ?thesis using a by (simp add: decimal_def)
  next
    case False
    then have "CHR '' '' \<in> set (str_nat (nat i))" using a by (simp add: decimal_def)
    then show ?thesis using str_nat_digits [of "nat i"] by auto
  qed
qed

lemma decimal_open_iff [simp]: "decimal i = '' '' \<longleftrightarrow> False" "'' '' = decimal i \<longleftrightarrow> False"
  using decimal_not_open [of i] by auto

lemma py_str_Inr: "py_str i = Inr s \<Longrightarrow> s = decimal i"
  by (simp add: py_str_def split: if_splits)

lemma py_str_cases:
  "py_str i = (if max_str_digits < digit_count i then Inl ValueError else Inr (decimal i))"
  by (simp add: py_str_def)

subsection \<open>A label at the digit limit\<close>

lemma int_digits_digit:
  "py_isdigit u \<Longrightarrow> int_digits acc (u # cs) = int_digits (10 * acc + digit_value u) cs"
  by (cases cs) simp_all

lemma int_digits_nines:
  "int_digits acc (replicate n CHR ''9'') = Some (acc * 10 ^ n + (10 ^ n - 1))"
proof (induction n arbitrary: acc)
  case 0
  then show ?case by simp
next
  case (Suc n)
  have nine: "py_isdigit CHR ''9''" "digit_value CHR ''9'' = 9"
    by (simp_all add: py_isdigit_def digit_value_def)
  have "int_digits acc (replicate (Suc n) CHR ''9'')
          = int_digits (10 * acc + 9) (replicate n CHR ''9'')"
    using nine by (simp add: int_digits_digit)
  also have "\<dots> = Some ((10 * acc + 9) * 10 ^ n + (10 ^ n - 1))"
    by (rule Suc.IH)
  also have "(10 * acc + 9) * 10 ^ n + (10 ^ n - 1) = acc * 10 ^ Suc n + (10 ^ Suc n - 1)"
    by (simp add: algebra_simps)
  finally show ?case .
qed

lemma py_int_nines:
  assumes "0 < n"
  shows "py_int (replicate n CHR ''9'') =
           (if max_str_digits < n then None else Some (10 ^ n - 1))"
proof -
  obtain k where n: "n = Suc k" using assms by (cases n) auto
  have space: "\<not> py_isspace CHR ''9''" and digit: "py_isdigit CHR ''9''"
    and nine: "digit_value CHR ''9'' = 9"
    by (simp_all add: py_isspace_def py_isdigit_def digit_value_def)
  have strip: "py_strip (replicate n CHR ''9'') = replicate n CHR ''9''"
    using space by (simp add: py_strip_def)
  have count: "length (filter py_isdigit (replicate n CHR ''9'')) = n"
    using digit by (simp add: filter_replicate)
  have "int_digits 9 (replicate k CHR ''9'') = Some (10 ^ n - 1)"
    unfolding n by (simp add: int_digits_nines)
  then have "int_unsigned (replicate n CHR ''9'') =
               (if max_str_digits < n then None else Some (10 ^ n - 1))"
    unfolding int_unsigned_def count using digit nine by (simp add: n)
  then show ?thesis
    unfolding py_int_def strip by (simp add: n)
qed

lemma length_str_nat_power: "length (str_nat (10 ^ n)) = Suc n"
proof (induction n)
  case 0
  show ?case by (subst str_nat.simps) simp
next
  case (Suc n)
  have "(10::nat) \<le> 10 * 10 ^ n" by simp
  then have "str_nat (10 ^ Suc n) = str_nat (10 ^ n) @ [''0123456789'' ! 0]"
    by (subst str_nat.simps) simp
  then show ?case using Suc by simp
qed

lemma digit_count_power: "digit_count (10 ^ n) = Suc n"
proof -
  have "nat \<bar>10 ^ n :: int\<bar> = (10::nat) ^ n" by (simp add: nat_power_eq)
  then show ?thesis unfolding digit_count_def by (simp only: length_str_nat_power)
qed

section \<open>The cell rules, one call\<close>

lemma counted_Inr: "counted nb = Inr n \<Longrightarrow> n = 0 \<or> n = 1"
  by (auto simp: counted_def split: sum.splits if_splits)

lemma adjacent_up_Inr: "adjacent_up g r c = Inr n \<Longrightarrow> n = 0 \<or> n = 1"
  by (auto simp: adjacent_up_def split: if_splits dest: counted_Inr)

lemma adjacent_left_Inr: "adjacent_left g r c = Inr n \<Longrightarrow> n = 0 \<or> n = 1"
  by (auto simp: adjacent_left_def split: if_splits dest: counted_Inr)

lemma adjacent_right_Inr: "adjacent_right g r c = Inr n \<Longrightarrow> n = 0 \<or> n = 1"
  by (auto simp: adjacent_right_def split: if_splits sum.splits dest: counted_Inr)

lemma adjacent_down_Inr: "adjacent_down g r c = Inr n \<Longrightarrow> n = 0 \<or> n = 1"
  by (auto simp: adjacent_down_def split: if_splits dest: counted_Inr)

lemma adjacency_pure:
  assumes "visitor_for_adjacency g r c = Inr (g', n)"
  shows "g' = g \<and> 0 \<le> n \<and> n \<le> 4"
proof (cases "cell g r c = Inr ''X''")
  case True
  then show ?thesis using assms by (simp add: visitor_for_adjacency_def)
next
  case False
  with assms obtain u l rt d where parts: "adjacent_up g r c = Inr u" "adjacent_left g r c = Inr l"
    "adjacent_right g r c = Inr rt" "adjacent_down g r c = Inr d"
    and res: "g' = g" "n = 0 + u + l + rt + d"
    by (auto simp: visitor_for_adjacency_def split: sum.splits if_splits)
  from parts have "u = 0 \<or> u = 1" "l = 0 \<or> l = 1" "rt = 0 \<or> rt = 1" "d = 0 \<or> d = 1"
    by (auto dest: adjacent_up_Inr adjacent_left_Inr adjacent_right_Inr adjacent_down_Inr)
  then show ?thesis using res by auto
qed

lemma adjacency_wall:
  "visitor_for_adjacency g r c = Inr (g', n) \<Longrightarrow> cell g r c = Inr ''X'' \<Longrightarrow> n = 0"
  by (simp add: visitor_for_adjacency_def)

lemma path_cases:
  assumes "visitor_for_path g r c = Inr (g', ch)"
  shows "(g' = g \<and> ch = 0 \<and> (\<exists>n. visitor_for_adjacency g r c = Inr (g, n) \<and> n \<noteq> 1)) \<or>
         (ch = 1 \<and> visitor_for_adjacency g r c = Inr (g, 1) \<and> set_cell g r c ''X'' = Inr g')"
proof -
  from assms obtain g1 n where a: "visitor_for_adjacency g r c = Inr (g1, n)"
    by (auto simp: visitor_for_path_def split: sum.splits)
  then have "g1 = g" by (auto dest: adjacency_pure)
  with a assms show ?thesis
    by (auto simp: visitor_for_path_def split: if_splits sum.splits)
qed

lemma path_length_cases:
  assumes "visitor_for_path_length g r c = Inr (g', ch)"
  shows "(g' = g \<and> ch = 0) \<or>
         (ch = 1 \<and> cell g r c = Inr '' '' \<and> (\<exists>n. set_cell g r c (decimal n) = Inr g'))"
proof -
  from assms obtain here where here: "cell g r c = Inr here"
    by (auto simp: visitor_for_path_length_def split: sum.splits)
  show ?thesis
  proof (cases "here = '' ''")
    case True
    with assms here show ?thesis
      by (auto simp: visitor_for_path_length_def split: sum.splits if_splits dest!: py_str_Inr)
  next
    case False
    with assms here show ?thesis
      by (auto simp: visitor_for_path_length_def split: if_splits)
  qed
qed

text \<open>A successful assignment leaves every cell with another label than the one read at
  the assigned subscripts as it was.\<close>

lemma set_cell_other:
  assumes "set_cell g r c v = Inr g'" "cell g r c = Inr s" "i < length g" "j < length (g ! i)"
    "g ! i ! j \<noteq> s"
  shows "g' ! i ! j = g ! i ! j"
proof -
  from assms(1) obtain a b where ab: "a < length g" "b < length (g ! a)"
    "cell g r c = Inr (g ! a ! b)" "g' = g[a := (g ! a)[b := v]]"
    by (auto dest: set_cell_Inr)
  with assms have "\<not> (i = a \<and> j = b)" by auto
  then show ?thesis using ab(4) assms(3,4) by (simp only: nth_update_cell) auto
qed


section \<open>The cell rules on rectangular grids\<close>

lemma adjacency_rect:
  assumes "rectangular g" "r < length g" "c < length (g ! r)"
  shows "visitor_for_adjacency g (int r) (int c) =
           Inr (g, if g ! r ! c = ''X'' then 0 else open_directions g (int r) (int c))"
proof -
  have up: "0 < r \<Longrightarrow> c < length (g ! (r - 1))"
    using assms rectangular_nth [of g r "r - 1"] by simp
  have down: "Suc r < length g \<Longrightarrow> c < length (g ! Suc r)"
    using assms rectangular_nth [of g r "Suc r"] by simp
  have u: "adjacent_up g (int r) (int c) =
      Inr (if \<not> in_grid g (int r + (- 1)) (int c + 0) \<or> label g (int r + (- 1)) (int c + 0) \<in> set [''S'', ''E'', '' ''] then 1 else 0)"
  proof (cases r)
    case 0
    then show ?thesis by (simp add: adjacent_up_def in_grid_def)
  next
    case (Suc k)
    then have "k < length g" "c < length (g ! k)" using assms up by simp_all
    then show ?thesis using Suc
      by (simp add: adjacent_up_def counted_def in_grid_def label_def)
  qed
  have l: "adjacent_left g (int r) (int c) =
      Inr (if \<not> in_grid g (int r + 0) (int c + (- 1)) \<or> label g (int r + 0) (int c + (- 1)) \<in> set [''S'', ''E'', '' ''] then 1 else 0)"
  proof (cases c)
    case 0
    then show ?thesis by (simp add: adjacent_left_def in_grid_def)
  next
    case (Suc k)
    then have "k < length (g ! r)" using assms by simp
    then show ?thesis using Suc assms
      by (simp add: adjacent_left_def counted_def in_grid_def label_def)
  qed
  have rt: "adjacent_right g (int r) (int c) =
      Inr (if \<not> in_grid g (int r + 0) (int c + 1) \<or> label g (int r + 0) (int c + 1) \<in> set [''S'', ''E'', '' ''] then 1 else 0)"
  proof (cases "Suc c < length (g ! r)")
    case True
    then show ?thesis using assms
      by (simp add: adjacent_right_def counted_def in_grid_def label_def int_succ nat_add_distrib del: of_nat_Suc)
  next
    case False
    then show ?thesis using assms
      by (simp add: adjacent_right_def in_grid_def)
  qed
  have d: "adjacent_down g (int r) (int c) =
      Inr (if \<not> in_grid g (int r + 1) (int c + 0) \<or> label g (int r + 1) (int c + 0) \<in> set [''S'', ''E'', '' ''] then 1 else 0)"
  proof (cases "Suc r < length g")
    case True
    then show ?thesis using assms down
      by (simp add: adjacent_down_def counted_def in_grid_def label_def int_succ nat_add_distrib del: of_nat_Suc)
  next
    case False
    then show ?thesis using assms
      by (simp add: adjacent_down_def in_grid_def)
  qed
  show ?thesis
    using assms unfolding visitor_for_adjacency_def u l rt d open_directions_def directions_def
    by simp
qed

lemma path_length_rect:
  assumes "rectangular g" "r < length g" "c < length (g ! r)"
  shows "visitor_for_path_length g (int r) (int c) =
           (if g ! r ! c = '' '' \<and> candidates g (int r) (int c) \<noteq> []
            then if max_str_digits < digit_count (Min (set (candidates g (int r) (int c))))
                 then Inl ValueError
                 else Inr (g[r := (g ! r)[c := decimal (Min (set (candidates g (int r) (int c))))]], 1)
            else Inr (g, 0))"
proof -
  have up: "0 < r \<Longrightarrow> c < length (g ! (r - 1))"
    using assms rectangular_nth [of g r "r - 1"] by simp
  have down: "Suc r < length g \<Longrightarrow> c < length (g ! Suc r)"
    using assms rectangular_nth [of g r "Suc r"] by simp
  have app: "appended (Inr s) = Inr (candidate s)" for s
    by (simp add: appended_def candidate_def split: option.splits)
  have u: "lengths_up g (int r) (int c) =
      Inr (if in_grid g (int r + (- 1)) (int c + 0) then candidate (label g (int r + (- 1)) (int c + 0)) else [])"
  proof (cases r)
    case 0
    then show ?thesis by (simp add: lengths_up_def in_grid_def)
  next
    case (Suc k)
    then have "k < length g" "c < length (g ! k)" using assms up by simp_all
    then show ?thesis using Suc
      by (simp add: lengths_up_def app in_grid_def label_def)
  qed
  have l: "lengths_left g (int r) (int c) =
      Inr (if in_grid g (int r + 0) (int c + (- 1)) then candidate (label g (int r + 0) (int c + (- 1))) else [])"
  proof (cases c)
    case 0
    then show ?thesis by (simp add: lengths_left_def in_grid_def)
  next
    case (Suc k)
    then have "k < length (g ! r)" using assms by simp
    then show ?thesis using Suc assms
      by (simp add: lengths_left_def app in_grid_def label_def)
  qed
  have rt: "lengths_right g (int r) (int c) =
      Inr (if in_grid g (int r + 0) (int c + 1) then candidate (label g (int r + 0) (int c + 1)) else [])"
  proof (cases "Suc c < length (g ! r)")
    case True
    then show ?thesis using assms
      by (simp add: lengths_right_def app in_grid_def label_def int_succ nat_add_distrib del: of_nat_Suc)
  next
    case False
    then show ?thesis using assms
      by (simp add: lengths_right_def in_grid_def)
  qed
  have d: "lengths_down g (int r) (int c) =
      Inr (if in_grid g (int r + 1) (int c + 0) then candidate (label g (int r + 1) (int c + 0)) else [])"
  proof (cases "Suc r < length g")
    case True
    then show ?thesis using assms down
      by (simp add: lengths_down_def app in_grid_def label_def int_succ nat_add_distrib del: of_nat_Suc)
  next
    case False
    then show ?thesis using assms
      by (simp add: lengths_down_def in_grid_def)
  qed
  have al: "adjacent_lengths g (int r) (int c) = Inr (candidates g (int r) (int c))"
    unfolding adjacent_lengths_def u l rt d candidates_def directions_def by simp
  show ?thesis
    using assms decimal_not_open unfolding visitor_for_path_length_def al
    by (simp add: py_str_cases)
qed

section \<open>Claims about single rule applications\<close>

text \<open>
  Claim C1, as stated: neither the dead-end rule nor the distance rule ever changes a cell
  holding WALL, START or END. This fails for the dead-end rule: a START cell with exactly
  one open neighbour is turned into a wall.
\<close>

theorem dead_end_rule_erodes_start:
  "visitor_for_path [[''X'', ''X'', ''X''], [''X'', ''S'', ''X''], [''X'', '' '', ''X'']] 1 1
     = Inr ([[''X'', ''X'', ''X''], [''X'', ''X'', ''X''], [''X'', '' '', ''X'']], 1)"
  by code_simp

text \<open>
  Claim C1, amended: the distance rule never changes a cell holding WALL, START or END;
  the dead-end rule never changes a cell holding WALL, and it changes the grid only by
  writing WALL into the visited cell, only when the adjacency count of that cell is
  exactly 1 (START and END cells included).
\<close>

theorem rules_keep_walls:
  "(visitor_for_path_length g r c = Inr (g', ch) \<and> i < length g \<and> j < length (g ! i)
      \<and> g ! i ! j \<in> set [''X'', ''S'', ''E''] \<longrightarrow> g' ! i ! j = g ! i ! j) \<and>
   (visitor_for_path g r c = Inr (g', ch) \<and> i < length g \<and> j < length (g ! i)
      \<and> g ! i ! j = ''X'' \<longrightarrow> g' ! i ! j = ''X'') \<and>
   (visitor_for_path g r c = Inr (g', ch) \<and> g' \<noteq> g \<longrightarrow>
      visitor_for_adjacency g r c = Inr (g, 1) \<and> set_cell g r c ''X'' = Inr g')"
proof (intro conjI impI)
  assume a: "visitor_for_path_length g r c = Inr (g', ch) \<and> i < length g \<and> j < length (g ! i)
      \<and> g ! i ! j \<in> set [''X'', ''S'', ''E'']"
  then consider "g' = g" | n where "cell g r c = Inr '' ''" "set_cell g r c (decimal n) = Inr g'"
    using path_length_cases [of g r c g' ch] by blast
  then show "g' ! i ! j = g ! i ! j"
  proof cases
    case 1
    then show ?thesis by simp
  next
    case 2
    have "g ! i ! j \<noteq> '' ''" using a by auto
    with 2 a show ?thesis using set_cell_other [of g r c "decimal n" g' "'' ''" i j] by simp
  qed
next
  assume a: "visitor_for_path g r c = Inr (g', ch) \<and> i < length g \<and> j < length (g ! i)
      \<and> g ! i ! j = ''X''"
  then consider "g' = g" | "visitor_for_adjacency g r c = Inr (g, 1)" "set_cell g r c ''X'' = Inr g'"
    using path_cases [of g r c g' ch] by blast
  then show "g' ! i ! j = ''X''"
  proof cases
    case 1
    then show ?thesis using a by simp
  next
    case 2
    from 2(2) obtain s where s: "cell g r c = Inr s"
      by (auto dest: set_cell_Inr)
    have "s \<noteq> ''X''" using adjacency_wall [OF 2(1)] s by auto
    then show ?thesis using set_cell_other [OF 2(2) s, of i j] a by simp
  qed
next
  assume "visitor_for_path g r c = Inr (g', ch) \<and> g' \<noteq> g"
  then show "visitor_for_adjacency g r c = Inr (g, 1)" "set_cell g r c ''X'' = Inr g'"
    using path_cases [of g r c g' ch] by auto
qed

theorem rules_keep_walls_witness:
  "visitor_for_path_length [[''S'', '' '']] 0 1 = Inr ([[''S'', ''1'']], 1)
   \<and> [[''S'', ''1'']] ! 0 ! 0 = [[''S'', '' '']] ! 0 ! (0::nat)
   \<and> visitor_for_path [[''X'', ''X'', ''X''], [''X'', '' '', ''X''], [''X'', '' '', ''X'']] 1 1
       = Inr ([[''X'', ''X'', ''X''], [''X'', ''X'', ''X''], [''X'', '' '', ''X'']], 1)
   \<and> [[''X'', ''X'', ''X''], [''X'', ''X'', ''X''], [''X'', '' '', ''X'']] ! 0 ! 0 = ''X''
   \<and> visitor_for_adjacency [[''X'', ''X'', ''X''], [''X'', '' '', ''X''], [''X'', '' '', ''X'']] 1 1
       = Inr ([[''X'', ''X'', ''X''], [''X'', '' '', ''X''], [''X'', '' '', ''X'']], 1)"
proof -
  have h1: "visitor_for_path_length [[''S'', '' '']] 0 1 = Inr ([[''S'', ''1'']], 1)"
    by code_simp
  have h2: "visitor_for_path [[''X'', ''X'', ''X''], [''X'', '' '', ''X''], [''X'', '' '', ''X'']] 1 1
       = Inr ([[''X'', ''X'', ''X''], [''X'', ''X'', ''X''], [''X'', '' '', ''X'']], 1)"
    by code_simp
  show ?thesis
    using h1 h2
      rules_keep_walls [of "[[''S'', '' '']]" 0 1 "[[''S'', ''1'']]" 1 0 0]
      rules_keep_walls [of "[[''X'', ''X'', ''X''], [''X'', '' '', ''X''], [''X'', '' '', ''X'']]" 1 1
        "[[''X'', ''X'', ''X''], [''X'', ''X'', ''X''], [''X'', '' '', ''X'']]" 1 0 0]
    by simp
qed

text \<open>
  Claim C6, as stated for every grid: the adjacency rule returns the number of open
  directions. On a grid whose rows differ in length the lookup of the neighbour below can
  leave the shorter row, and the call raises instead of returning.
\<close>

theorem adjacency_raises_on_ragged_grid:
  "visitor_for_adjacency [[''S'', '' ''], [''X'']] 0 1 = Inl IndexError"
  by code_simp

text \<open>
  Claim C6, amended to rectangular grids: at every in-bounds coordinate the adjacency rule
  returns the grid unchanged together with 0 for a WALL cell and otherwise the number,
  between 0 and 4, of orthogonal directions that are off-grid or point to a neighbour
  labelled START, END or OPEN (a neighbour with a numeric label is not counted).
\<close>

theorem adjacency_counts_open_directions:
  assumes "rectangular g" and "r < length g" and "c < length (g ! r)"
  shows "visitor_for_adjacency g (int r) (int c) =
           Inr (g, if g ! r ! c = ''X'' then 0 else open_directions g (int r) (int c))
         \<and> 0 \<le> open_directions g (int r) (int c) \<and> open_directions g (int r) (int c) \<le> 4"
proof -
  have "length (filter P directions) \<le> 4" for P :: "int \<times> int \<Rightarrow> bool"
    using length_filter_le [of P directions] by (simp add: directions_def)
  then have "open_directions g (int r) (int c) \<le> 4"
    unfolding open_directions_def by (simp only: of_nat_le_iff [symmetric, where 'a = int] of_nat_numeral)
  moreover have "0 \<le> open_directions g (int r) (int c)"
    by (simp add: open_directions_def)
  ultimately show ?thesis using adjacency_rect [OF assms] by simp
qed

theorem adjacency_counts_open_directions_witness:
  "rectangular [[''X'', ''S'', ''7''], [''X'', '' '', ''X'']]
   \<and> (0::nat) < length [[''X'', ''S'', ''7''], [''X'', '' '', ''X'']]
   \<and> (1::nat) < length ([[''X'', ''S'', ''7''], [''X'', '' '', ''X'']] ! 0)
   \<and> visitor_for_adjacency [[''X'', ''S'', ''7''], [''X'', '' '', ''X'']] (int 0) (int 1)
       = Inr ([[''X'', ''S'', ''7''], [''X'', '' '', ''X'']], 2)"
proof -
  have h: "rectangular [[''X'', ''S'', ''7''], [''X'', '' '', ''X'']]"
    by (simp add: rectangular_def)
  have v: "open_directions [[''X'', ''S'', ''7''], [''X'', '' '', ''X'']] (int 0) (int 1) = 2"
    by (simp add: open_directions_def directions_def in_grid_def label_def)
  show ?thesis
    using h v adjacency_counts_open_directions [of "[[''X'', ''S'', ''7''], [''X'', '' '', ''X'']]" 0 1]
    by simp
qed

lemma distance_from_nines:
  "visitor_for_path_length [['' '', replicate max_str_digits CHR ''9'']] 0 0 = Inl ValueError"
proof -
  let ?l = "replicate max_str_digits CHR ''9''"
  let ?g = "[['' '', ?l]]"
  have pos: "0 < max_str_digits" by (simp add: max_str_digits_def)
  then have "hd ?l = CHR ''9''" by (cases max_str_digits) simp_all
  then have no_start: "?l \<noteq> ''S''" by auto
  have parse: "py_int ?l = Some (10 ^ max_str_digits - 1)"
    using py_int_nines [OF pos] by simp
  have "candidates ?g 0 0 = candidate ?l"
    by (simp add: candidates_def directions_def in_grid_def label_def)
  also have "\<dots> = [10 ^ max_str_digits]"
    using no_start parse by (simp add: candidate_def)
  finally have cands: "candidates ?g 0 0 = [10 ^ max_str_digits]" .
  have "visitor_for_path_length ?g (int 0) (int 0) =
          (if ?g ! 0 ! 0 = '' '' \<and> candidates ?g (int 0) (int 0) \<noteq> []
           then if max_str_digits < digit_count (Min (set (candidates ?g (int 0) (int 0))))
                then Inl ValueError
                else Inr (?g[0 := (?g ! 0)[0 := decimal (Min (set (candidates ?g (int 0) (int 0))))]], 1)
           else Inr (?g, 0))"
    by (rule path_length_rect) (simp_all add: rectangular_def)
  then show ?thesis by (simp add: cands digit_count_power)
qed

text \<open>
  Claim C7, as stated for every grid, with candidates only from labels that parse as a
  non-negative integer and a label written whenever there is a candidate: a neighbour
  labelled \<open>-3\<close> does give the candidate \<open>-2\<close>; on a grid whose rows differ in length the
  call can raise \<^verbatim>\<open>IndexError\<close>; and next to a label of 4300 nines the least candidate
  has 4301 digits, \<^verbatim>\<open>str()\<close> refuses it and the call raises \<^verbatim>\<open>ValueError\<close>.
\<close>

theorem distance_rule_negative_label_and_ragged_grid:
  "visitor_for_path_length [['' '', ''-3'']] 0 0 = Inr ([[''-2'', ''-3'']], 1)
   \<and> visitor_for_path_length [[''S'', '' ''], [''X'']] 0 1 = Inl IndexError
   \<and> visitor_for_path_length [['' '', nines]] 0 0 = Inl ValueError"
proof -
  have "visitor_for_path_length [['' '', ''-3'']] 0 0 = Inr ([[''-2'', ''-3'']], 1)"
    by code_simp
  moreover have "visitor_for_path_length [[''S'', '' ''], [''X'']] 0 1 = Inl IndexError"
    by code_simp
  moreover have "visitor_for_path_length [['' '', nines]] 0 0 = Inl ValueError"
  proof -
    have n: "nines = replicate max_str_digits CHR ''9''"
      by (simp add: nines_def max_str_digits_def)
    show ?thesis unfolding n by (rule distance_from_nines)
  qed
  ultimately show ?thesis by blast
qed

text \<open>
  Claim C7, amended to rectangular grids and in-bounds coordinates, with a candidate
  \<open>n + 1\<close> for every neighbour label that parses as an integer \<open>n\<close> of either sign, and
  with the refusal of \<^verbatim>\<open>str()\<close>: the distance rule changes only a cell labelled OPEN;
  if that cell has a candidate and the least candidate has at most 4300 digits, its
  decimal text becomes the label and the rule returns 1; if the least candidate has more
  digits the rule raises \<^verbatim>\<open>ValueError\<close> and changes nothing; in every other case the
  grid stays as it is and the rule returns 0.
\<close>

theorem distance_rule_writes_least_candidate:
  assumes "rectangular g" and "r < length g" and "c < length (g ! r)"
  shows "visitor_for_path_length g (int r) (int c) =
           (if g ! r ! c = '' '' \<and> candidates g (int r) (int c) \<noteq> []
            then if max_str_digits < digit_count (Min (set (candidates g (int r) (int c))))
                 then Inl ValueError
                 else Inr (g[r := (g ! r)[c := decimal (Min (set (candidates g (int r) (int c))))]], 1)
            else Inr (g, 0))"
  using assms by (rule path_length_rect)

theorem distance_rule_writes_least_candidate_witness:
  "rectangular [[''S'', '' '', ''4'']]
   \<and> (0::nat) < length [[''S'', '' '', ''4'']]
   \<and> (1::nat) < length ([[''S'', '' '', ''4'']] ! 0)
   \<and> visitor_for_path_length [[''S'', '' '', ''4'']] (int 0) (int 1) = Inr ([[''S'', ''1'', ''4'']], 1)"
proof -
  have h: "rectangular [[''S'', '' '', ''4'']]"
    by (simp add: rectangular_def)
  have v: "candidates [[''S'', '' '', ''4'']] (int 0) (int 1) = [1, 5]"
    by code_simp
  have s: "decimal 1 = ''1''" "digit_count 1 = 1"
    by code_simp+
  show ?thesis
    using h v s distance_rule_writes_least_candidate [of "[[''S'', '' '', ''4'']]" 0 1]
    by (simp add: max_str_digits_def)
qed


section \<open>One pass over the grid\<close>

lemma visit_columns_append:
  "visit_columns f v r (xs @ ys) g acc =
     (case visit_columns f v r xs g acc of
        Inl e \<Rightarrow> Inl e
      | Inr (g', acc') \<Rightarrow> visit_columns f v r ys g' acc')"
  by (induction xs arbitrary: g acc) (auto split: sum.splits)

lemma visit_rows_append:
  "visit_rows f v (xs @ ys) g acc =
     (case visit_rows f v xs g acc of
        Inl e \<Rightarrow> Inl e
      | Inr (g', acc') \<Rightarrow> visit_rows f v ys g' acc')"
  by (induction xs arbitrary: g acc) (auto split: sum.splits)

text \<open>A property of grid and accumulator that every visit keeps is kept by a pass.\<close>

lemma visit_columns_invariant:
  assumes step: "\<And>g acc c g' x. I g acc \<Longrightarrow> v g (int r) (int c) = Inr (g', x) \<Longrightarrow> I g' (f acc x)"
  shows "I g acc \<Longrightarrow> visit_columns f v r cs g acc = Inr (g', acc') \<Longrightarrow> I g' acc'"
proof (induction cs arbitrary: g acc)
  case Nil
  then show ?case by simp
next
  case (Cons c cs)
  from Cons.prems(2) obtain g1 x where v: "v g (int r) (int c) = Inr (g1, x)"
    and rest: "visit_columns f v r cs g1 (f acc x) = Inr (g', acc')"
    by (auto split: sum.splits)
  from step [OF Cons.prems(1) v] rest show ?case by (rule Cons.IH)
qed

lemma visit_rows_invariant:
  assumes step: "\<And>g acc r c g' x. I g acc \<Longrightarrow> v g (int r) (int c) = Inr (g', x) \<Longrightarrow> I g' (f acc x)"
  shows "I g acc \<Longrightarrow> visit_rows f v rs g acc = Inr (g', acc') \<Longrightarrow> I g' acc'"
proof (induction rs arbitrary: g acc)
  case Nil
  then show ?case by simp
next
  case (Cons r rs)
  from Cons.prems(2) obtain row where row: "getitem g (int r) = Inr row"
    by (cases "getitem g (int r)") auto
  with Cons.prems(2) obtain g1 acc1 where
    cols: "visit_columns f v r [0..<length row] g acc = Inr (g1, acc1)"
    and rest: "visit_rows f v rs g1 acc1 = Inr (g', acc')"
    by (cases "visit_columns f v r [0..<length row] g acc") auto
  have "I g1 acc1"
  proof (rule visit_columns_invariant [where I = I and f = f and v = v and r = r])
    show "I g acc" by fact
    show "visit_columns f v r [0..<length row] g acc = Inr (g1, acc1)" by fact
    show "\<And>g acc c g' x. I g acc \<Longrightarrow> v g (int r) (int c) = Inr (g', x) \<Longrightarrow> I g' (f acc x)"
      by (rule step)
  qed
  then show ?case using rest by (rule Cons.IH)
qed

lemma grid_pass_invariant:
  assumes "\<And>g acc r c g' x. I g acc \<Longrightarrow> v g (int r) (int c) = Inr (g', x) \<Longrightarrow> I g' (f acc x)"
    and "I g acc" and "grid_pass f v g acc = Inr (g', acc')"
  shows "I g' acc'"
proof (rule visit_rows_invariant [where I = I and f = f and v = v])
  show "I g acc" by fact
  show "visit_rows f v [0..<length g] g acc = Inr (g', acc')"
    using assms(3) by (simp add: grid_pass_def)
  show "\<And>g acc r c g' x. I g acc \<Longrightarrow> v g (int r) (int c) = Inr (g', x) \<Longrightarrow> I g' (f acc x)"
    by (rule assms(1))
qed

subsection \<open>Rules that leave the grid alone\<close>

lemma visit_columns_pure:
  assumes "\<forall>c \<in> set cs. v g (int r) (int c) = Inr (g, h c)"
  shows "visit_columns max v r cs g acc = Inr (g, fold max (map h cs) acc)"
  using assms by (induction cs arbitrary: acc) (simp_all add: max.commute)

lemma visit_rows_pure:
  assumes "\<forall>r \<in> set rs. r < length g \<and> (\<forall>c < length (g ! r). v g (int r) (int c) = Inr (g, h r c))"
  shows "visit_rows max v rs g acc =
           Inr (g, fold max (concat (map (\<lambda>r. map (h r) [0..<length (g ! r)]) rs)) acc)"
  using assms
proof (induction rs arbitrary: acc)
  case Nil
  then show ?case by simp
next
  case (Cons r rs)
  then have "visit_columns max v r [0..<length (g ! r)] g acc
               = Inr (g, fold max (map (h r) [0..<length (g ! r)]) acc)"
    by (intro visit_columns_pure) simp
  with Cons show ?case by simp
qed

lemma grid_pass_pure:
  assumes "\<forall>r < length g. \<forall>c < length (g ! r). v g (int r) (int c) = Inr (g, h r c)"
  shows "grid_pass max v g acc = Inr (g, fold max (map (\<lambda>(r, c). h r c) (cells g)) acc)"
proof -
  have "map (\<lambda>(r, c). h r c) (cells g) = concat (map (\<lambda>r. map (h r) [0..<length (g ! r)]) [0..<length g])"
    by (simp add: cells_def map_concat comp_def)
  then show ?thesis
    unfolding grid_pass_def using assms by (simp add: visit_rows_pure)
qed

lemma compute_max_pure:
  assumes "\<forall>r < length g. \<forall>c < length (g ! r). v g (int r) (int c) = Inr (g, h r c)"
  shows "apply_visitor_compute_max g v = Inr (g, Max (set (0 # map (\<lambda>(r, c). h r c) (cells g))))"
proof -
  have pass: "grid_pass max v g 0 = Inr (g, fold max (map (\<lambda>(r, c). h r c) (cells g)) 0)"
    using assms by (rule grid_pass_pure [where v = v and g = g and h = h])
  have "compute_max_loop v 0 0 0 g =
          compute_max_loop v 1 0 (fold max (map (\<lambda>(r, c). h r c) (cells g)) 0) g"
    by (subst compute_max_loop.simps) (simp add: pass)
  also have "\<dots> = Inr (g, fold max (map (\<lambda>(r, c). h r c) (cells g)) 0)"
    by (subst compute_max_loop.simps) simp
  finally show ?thesis
    by (simp only: apply_visitor_compute_max_def Max.set_eq_fold)
qed

lemma length_rule_pure:
  "r < length g \<Longrightarrow> c < length (g ! r) \<Longrightarrow>
     visitor_for_length g (int r) (int c) = Inr (g, raw_distance g r c)"
  by (simp add: visitor_for_length_def raw_distance_def)

lemma adjacency_rule_pure:
  "rectangular g \<Longrightarrow> r < length g \<Longrightarrow> c < length (g ! r) \<Longrightarrow>
     visitor_for_adjacency g (int r) (int c) = Inr (g, adjacency g r c)"
  by (simp add: adjacency_rect adjacency_def)

text \<open>
  Claim C4, as stated: the scanner returns the maximum value of the rule over all cells.
  The running maximum starts at 0, so on a grid without numeric labels, where
  RawDistanceRule is -1 at every cell, the scanner returns 0.
\<close>

theorem compute_max_starts_at_zero:
  "apply_visitor_compute_max [[''X'']] visitor_for_length = Inr ([[''X'']], 0)
   \<and> visitor_for_length [[''X'']] 0 0 = Inr ([[''X'']], - 1)"
  by code_simp

text \<open>
  Claim C4, amended: for a rule that returns a value at every cell and leaves the grid as
  it is, the scanner returns the grid unchanged and the greater of 0 and the maximum value
  of the rule over all cells (0 when the grid has no cell). RawDistanceRule is such a rule
  on every grid, AdjacencyRule on every rectangular grid.
\<close>

theorem compute_max_is_maximum_with_zero:
  "((\<forall>r < length g. \<forall>c < length (g ! r). v g (int r) (int c) = Inr (g, h r c)) \<longrightarrow>
      apply_visitor_compute_max g v = Inr (g, Max (set (0 # map (\<lambda>(r, c). h r c) (cells g)))))
   \<and> apply_visitor_compute_max g visitor_for_length
       = Inr (g, Max (set (0 # map (\<lambda>(r, c). raw_distance g r c) (cells g))))
   \<and> (rectangular g \<longrightarrow>
        apply_visitor_compute_max g visitor_for_adjacency
          = Inr (g, Max (set (0 # map (\<lambda>(r, c). adjacency g r c) (cells g)))))"
  by (intro conjI impI compute_max_pure) (simp_all add: length_rule_pure adjacency_rule_pure)

theorem compute_max_is_maximum_with_zero_witness:
  "visitor_for_length [[''X'', ''12''], [''3'', ''S'']] (int 0) (int 1)
     = Inr ([[''X'', ''12''], [''3'', ''S'']], raw_distance [[''X'', ''12''], [''3'', ''S'']] 0 1)
   \<and> rectangular [[''X'', ''12''], [''3'', ''S'']]
   \<and> apply_visitor_compute_max [[''X'', ''12''], [''3'', ''S'']] visitor_for_length
       = Inr ([[''X'', ''12''], [''3'', ''S'']], 12)
   \<and> apply_visitor_compute_max [[''X'', ''12''], [''3'', ''S'']] visitor_for_adjacency
       = Inr ([[''X'', ''12''], [''3'', ''S'']], 3)"
proof -
  let ?g = "[[''X'', ''12''], [''3'', ''S'']]"
  have p: "\<forall>r < length ?g. \<forall>c < length (?g ! r).
      visitor_for_length ?g (int r) (int c) = Inr (?g, raw_distance ?g r c)"
    by (simp add: length_rule_pure)
  have q: "rectangular ?g"
    by (simp add: rectangular_def)
  have m1: "Max (set (0 # map (\<lambda>(r, c). raw_distance ?g r c) (cells ?g))) = 12"
    by code_simp
  have m2: "Max (set (0 # map (\<lambda>(r, c). adjacency ?g r c) (cells ?g))) = 3"
    by code_simp
  have c: "visitor_for_length ?g (int 0) (int 1) = Inr (?g, raw_distance ?g 0 1)"
    by (rule length_rule_pure) simp_all
  have "apply_visitor_compute_max ?g visitor_for_length = Inr (?g, 12)
      \<and> apply_visitor_compute_max ?g visitor_for_adjacency = Inr (?g, 3)"
    using p q m1 m2 compute_max_is_maximum_with_zero [of ?g visitor_for_length "raw_distance ?g"]
    by simp
  with c q show ?thesis by blast
qed


subsection \<open>Rules that rewrite the visited label\<close>

lemma update_next_label:
  assumes "n < length row"
  shows "(map h (take n row) @ drop n row)[n := h (row ! n)]
           = map h (take (Suc n) row) @ drop (Suc n) row"
proof -
  have "drop n row = row ! n # drop (Suc n) row"
    using assms by (simp add: Cons_nth_drop_Suc)
  then have "(map h (take n row) @ drop n row)[n := h (row ! n)]
               = map h (take n row) @ h (row ! n) # drop (Suc n) row"
    using assms by (simp add: list_update_append)
  then show ?thesis using assms by (simp add: take_Suc_conv_app_nth)
qed

lemma visit_columns_rewrite:
  assumes v: "\<And>g r c. r < length g \<Longrightarrow> c < length (g ! r) \<Longrightarrow>
                 v g (int r) (int c) = Inr (g[r := (g ! r)[c := h (g ! r ! c)]], 0)"
    and r: "r < length g"
  shows "n \<le> length (g ! r) \<Longrightarrow>
           visit_columns (\<lambda>a x. a) v r [0..<n] g acc
             = Inr (g[r := map h (take n (g ! r)) @ drop n (g ! r)], acc)"
proof (induction n)
  case 0
  then show ?case by simp
next
  case (Suc n)
  let ?g1 = "g[r := map h (take n (g ! r)) @ drop n (g ! r)]"
  have n: "n < length (g ! r)" using Suc.prems by simp
  have row1: "?g1 ! r = map h (take n (g ! r)) @ drop n (g ! r)" using r by simp
  have cell1: "(map h (take n (g ! r)) @ drop n (g ! r)) ! n = g ! r ! n"
    using n by (simp add: nth_append)
  have "v ?g1 (int r) (int n) = Inr (?g1[r := (?g1 ! r)[n := h (?g1 ! r ! n)]], 0)"
    using r n by (intro v) (simp_all add: row1)
  also have "?g1[r := (?g1 ! r)[n := h (?g1 ! r ! n)]]
               = g[r := map h (take (Suc n) (g ! r)) @ drop (Suc n) (g ! r)]"
    using n r by (simp add: cell1 update_next_label)
  finally show ?case using Suc by (simp add: visit_columns_append)
qed

lemma update_next_row:
  assumes "m < length g"
  shows "(map k (take m g) @ drop m g)[m := k (g ! m)] = map k (take (Suc m) g) @ drop (Suc m) g"
  using assms by (rule update_next_label)

lemma visit_rows_rewrite:
  assumes v: "\<And>g r c. r < length g \<Longrightarrow> c < length (g ! r) \<Longrightarrow>
                 v g (int r) (int c) = Inr (g[r := (g ! r)[c := h (g ! r ! c)]], 0)"
  shows "m \<le> length g \<Longrightarrow>
           visit_rows (\<lambda>a x. a) v [0..<m] g acc = Inr (map (map h) (take m g) @ drop m g, acc)"
proof (induction m)
  case 0
  then show ?case by simp
next
  case (Suc m)
  let ?g1 = "map (map h) (take m g) @ drop m g"
  have m: "m < length g" using Suc.prems by simp
  then have m1: "m < length ?g1" by simp
  have row1: "?g1 ! m = g ! m" using m by (simp add: nth_append)
  have cols: "visit_columns (\<lambda>a x. a) v m [0..<length (g ! m)] ?g1 acc
          = Inr (?g1[m := map h (take (length (g ! m)) (?g1 ! m)) @ drop (length (g ! m)) (?g1 ! m)], acc)"
    using m1 by (intro visit_columns_rewrite [where h = h] v) (simp_all add: row1)
  have "?g1[m := map h (take (length (g ! m)) (?g1 ! m)) @ drop (length (g ! m)) (?g1 ! m)]
          = ?g1[m := map h (g ! m)]"
    by (simp add: row1)
  also have "\<dots> = map (map h) (take (Suc m) g) @ drop (Suc m) g"
    using m by (rule update_next_row)
  finally have "visit_columns (\<lambda>a x. a) v m [0..<length (g ! m)] ?g1 acc
          = Inr (map (map h) (take (Suc m) g) @ drop (Suc m) g, acc)"
    using cols by simp
  then show ?case using Suc m1 by (simp add: visit_rows_append row1)
qed

lemma break_visitor_rewrite:
  assumes "r < length g" "c < length (g ! r)"
  shows "break_visitor p_max g (int r) (int c) = Inr (g[r := (g ! r)[c := broken p_max (g ! r ! c)]], 0)"
proof -
  have "g[r := (g ! r)[c := g ! r ! c]] = g" by simp
  then show ?thesis
    using assms by (auto simp: break_visitor_def broken_def split: option.splits)
qed

lemma break_loops_map: "break_loops g p_max = Inr (map (map (broken p_max)) g)"
proof -
  have "visit_rows (\<lambda>a x. a) (break_visitor p_max) [0..<length g] g 0
          = Inr (map (map (broken p_max)) (take (length g) g) @ drop (length g) g, 0)"
    by (intro visit_rows_rewrite break_visitor_rewrite) simp_all
  then show ?thesis by (simp add: break_loops_def grid_pass_def)
qed

lemma py_int_wall: "py_int ''X'' = None"
  by code_simp

lemma py_int_open: "py_int '' '' = None"
  by code_simp

lemma py_int_start: "py_int ''S'' = None"
  by code_simp

lemma py_int_end: "py_int ''E'' = None"
  by code_simp

lemma broken_not_numeric: "py_int (broken p_max s) = None"
  by (simp add: broken_def py_int_wall py_int_open split: option.splits)

lemma decimal_not_landmark: "decimal n \<notin> set [''S'', ''E'']"
proof -
  have "hd (str_nat k) \<in> set ''0123456789''" for k
    using str_nat_digits [of k] str_nat_nonempty [of k] by (cases "str_nat k") auto
  then have "hd (decimal n) \<in> set ''-0123456789''"
    by (auto simp: decimal_def)
  then show ?thesis by auto
qed

text \<open>
  Claim C8: after \<^verbatim>\<open>break_loops\<close> every cell whose label equalled the target is WALL,
  every other cell whose label parses as a non-negative integer is OPEN, cells labelled
  WALL, START or END are unchanged, and no cell is left with a label that parses as an
  integer. The target is any string that is not itself \<open>S\<close> or \<open>E\<close>; the one call of
  \<^verbatim>\<open>break_loops\<close> passes the decimal text of an integer, which never is
  (\<open>decimal_not_landmark\<close>). The function always returns and keeps the shape of the grid.
\<close>

theorem break_loops_resets_labels:
  assumes "p_max \<notin> set [''S'', ''E'']"
  shows "\<exists>g'. break_loops g p_max = Inr g' \<and> length g' = length g \<and>
     (\<forall>r < length g. length (g' ! r) = length (g ! r) \<and>
        (\<forall>c < length (g ! r).
           (g ! r ! c = p_max \<longrightarrow> g' ! r ! c = ''X'') \<and>
           (g ! r ! c \<noteq> p_max \<and> (\<exists>n. py_int (g ! r ! c) = Some n \<and> 0 \<le> n) \<longrightarrow> g' ! r ! c = '' '') \<and>
           (g ! r ! c \<in> set [''X'', ''S'', ''E''] \<longrightarrow> g' ! r ! c = g ! r ! c) \<and>
           py_int (g' ! r ! c) = None))"
proof -
  have "(s = p_max \<longrightarrow> broken p_max s = ''X'') \<and>
        (s \<noteq> p_max \<and> (\<exists>n. py_int s = Some n \<and> 0 \<le> n) \<longrightarrow> broken p_max s = '' '') \<and>
        (s \<in> set [''X'', ''S'', ''E''] \<longrightarrow> broken p_max s = s)" for s
    using assms by (auto simp: broken_def py_int_wall py_int_start py_int_end)
  then show ?thesis
    by (simp add: break_loops_map broken_not_numeric)
qed

theorem break_loops_resets_labels_witness:
  "''2'' \<notin> set [''S'', ''E'']
   \<and> break_loops [[''X'', ''S'', ''2''], [''1'', ''E'', '' '']] ''2''
     = Inr [[''X'', ''S'', ''X''], ['' '', ''E'', '' '']]
   \<and> [[''X'', ''S'', ''2''], [''1'', ''E'', '' '']] ! 0 ! 2 = ''2''
   \<and> py_int ([[''X'', ''S'', ''2''], [''1'', ''E'', '' '']] ! 1 ! 0) = Some 1
   \<and> [[''X'', ''S'', ''2''], [''1'', ''E'', '' '']] ! 0 ! 1 \<in> set [''X'', ''S'', ''E'']"
proof -
  let ?g = "[[''X'', ''S'', ''2''], [''1'', ''E'', '' '']]"
  have t: "''2'' \<notin> set [''S'', ''E'']"
    by simp
  have e: "break_loops ?g ''2'' = Inr [[''X'', ''S'', ''X''], ['' '', ''E'', '' '']]"
    by code_simp
  have p: "py_int (?g ! 1 ! 0) = Some 1"
    by code_simp
  show ?thesis
    using t e p break_loops_resets_labels [OF t, of ?g] by simp
qed


section \<open>Erosion to a fixed point\<close>

lemma finite_non_walls: "finite (non_walls g)"
proof -
  have "non_walls g \<subseteq> (SIGMA r:{..<length g}. {..<length (g ! r)})"
    by (auto simp: non_walls_def)
  then show ?thesis by (rule finite_subset) simp
qed

lemma path_honest:
  "visitor_for_path g r c = Inr (g', x) \<Longrightarrow> (x = 0 \<and> g' = g) \<or> x = 1"
  by (auto dest: path_cases)

lemma path_erodes:
  assumes "visitor_for_path g r c = Inr (g', 1)"
  shows "non_walls g' \<subset> non_walls g"
proof -
  from assms have adj: "visitor_for_adjacency g r c = Inr (g, 1)"
    and upd: "set_cell g r c ''X'' = Inr g'"
    using path_cases [of g r c g' 1] by auto
  from upd obtain i j where ij: "i < length g" "j < length (g ! i)"
    "cell g r c = Inr (g ! i ! j)" "g' = g[i := (g ! i)[j := ''X'']]"
    by (auto dest: set_cell_Inr)
  have "g ! i ! j \<noteq> ''X''" using adjacency_wall [OF adj] ij(3) by auto
  then have "(i, j) \<in> non_walls g" using ij by (simp add: non_walls_def)
  moreover have "(i, j) \<notin> non_walls g'" using ij by (simp add: non_walls_def nth_update_cell)
  moreover have "non_walls g' \<subseteq> non_walls g"
    using ij(4) by (auto simp: non_walls_def nth_update_cell split: if_splits)
  ultimately show ?thesis by blast
qed

text \<open>For a rule that reports 0 exactly when it changes nothing and 1 otherwise, the
  count of a pass never falls, and a pass that counts nothing changed nothing: every
  visit returned 0 on the grid the pass started from.\<close>

lemma visit_columns_quiet:
  assumes honest: "\<And>g r c g' x. v g r c = Inr (g', x) \<Longrightarrow> (x = 0 \<and> g' = g) \<or> x = 1"
  shows "visit_columns (+) v r cs g acc = Inr (g', acc') \<Longrightarrow>
           acc \<le> acc' \<and> (acc' = acc \<longrightarrow> g' = g \<and> (\<forall>c \<in> set cs. v g (int r) (int c) = Inr (g, 0)))"
proof (induction cs arbitrary: g acc)
  case Nil
  then show ?case by simp
next
  case (Cons c cs)
  from Cons.prems obtain g1 x where v: "v g (int r) (int c) = Inr (g1, x)"
    and rest: "visit_columns (+) v r cs g1 (acc + x) = Inr (g', acc')"
    by (auto split: sum.splits)
  from honest [OF v] have x: "(x = 0 \<and> g1 = g) \<or> x = 1" .
  from Cons.IH [OF rest] have ih: "acc + x \<le> acc'"
    "acc' = acc + x \<Longrightarrow> g' = g1 \<and> (\<forall>c \<in> set cs. v g1 (int r) (int c) = Inr (g1, 0))"
    by simp_all
  have "acc \<le> acc'" using x ih(1) by auto
  moreover have "g' = g \<and> (\<forall>c \<in> set (c # cs). v g (int r) (int c) = Inr (g, 0))" if same: "acc' = acc"
  proof -
    from same x ih(1) have x0: "x = 0" "g1 = g" by auto
    with ih(2) same v show ?thesis by simp
  qed
  ultimately show ?case by blast
qed

lemma visit_rows_quiet:
  assumes honest: "\<And>g r c g' x. v g r c = Inr (g', x) \<Longrightarrow> (x = 0 \<and> g' = g) \<or> x = 1"
  shows "visit_rows (+) v rs g acc = Inr (g', acc') \<Longrightarrow>
           acc \<le> acc' \<and>
           (acc' = acc \<longrightarrow> g' = g \<and>
              (\<forall>r \<in> set rs. r < length g \<and> (\<forall>c < length (g ! r). v g (int r) (int c) = Inr (g, 0))))"
proof (induction rs arbitrary: g acc)
  case Nil
  then show ?case by simp
next
  case (Cons r rs)
  from Cons.prems obtain row where row: "getitem g (int r) = Inr row"
    by (cases "getitem g (int r)") auto
  then have r: "r < length g" "row = g ! r" by (auto dest: getitem_int_Inr)
  from Cons.prems row obtain g1 acc1 where
    cols: "visit_columns (+) v r [0..<length (g ! r)] g acc = Inr (g1, acc1)"
    and rest: "visit_rows (+) v rs g1 acc1 = Inr (g', acc')"
    unfolding r(2) by (cases "visit_columns (+) v r [0..<length (g ! r)] g acc") auto
  have c: "acc \<le> acc1"
    "acc1 = acc \<Longrightarrow> g1 = g \<and> (\<forall>c \<in> set [0..<length (g ! r)]. v g (int r) (int c) = Inr (g, 0))"
    using visit_columns_quiet [where v = v, OF honest cols] by simp_all
  from Cons.IH [OF rest] have ih: "acc1 \<le> acc'"
    "acc' = acc1 \<Longrightarrow> g' = g1 \<and>
       (\<forall>r \<in> set rs. r < length g1 \<and> (\<forall>c < length (g1 ! r). v g1 (int r) (int c) = Inr (g1, 0)))"
    by simp_all
  have "acc \<le> acc'" using c(1) ih(1) by simp
  moreover have "g' = g \<and>
       (\<forall>r \<in> set (r # rs). r < length g \<and> (\<forall>c < length (g ! r). v g (int r) (int c) = Inr (g, 0)))"
    if same: "acc' = acc"
  proof -
    from same c(1) ih(1) have eq: "acc1 = acc" "acc' = acc1" by simp_all
    from c(2) [OF eq(1)] ih(2) [OF eq(2)] r(1) show ?thesis by simp
  qed
  ultimately show ?case by blast
qed

lemma grid_pass_quiet:
  assumes "\<And>g r c g' x. v g r c = Inr (g', x) \<Longrightarrow> (x = 0 \<and> g' = g) \<or> x = 1"
    and "grid_pass (+) v g 0 = Inr (g', ch)"
  shows "0 \<le> ch" and "ch = 0 \<Longrightarrow> g' = g"
    and "ch = 0 \<Longrightarrow> r < length g \<Longrightarrow> c < length (g ! r) \<Longrightarrow> v g (int r) (int c) = Inr (g, 0)"
  using visit_rows_quiet [where v = v, OF assms(1) assms(2) [unfolded grid_pass_def]]
  by simp_all

text \<open>A pass of the dead-end rule that counts a change leaves fewer cells that are not
  walls.\<close>

lemma erosion_pass_shrinks:
  assumes "grid_pass (+) visitor_for_path g 0 = Inr (g', ch)" and "ch \<noteq> 0"
  shows "non_walls g' \<subset> non_walls g"
proof -
  define I where "I h a \<longleftrightarrow> (a = 0 \<and> h = g) \<or> (0 < a \<and> non_walls h \<subset> non_walls g)"
    for h :: grid and a :: int
  have "I g' ch"
  proof (rule grid_pass_invariant [where I = I and f = "(+)" and v = visitor_for_path])
    show "I g 0" by (simp add: I_def)
    show "grid_pass (+) visitor_for_path g 0 = Inr (g', ch)" by fact
  next
    fix h a r c h' x
    assume i: "I h a" and v: "visitor_for_path h (int r) (int c) = Inr (h', x)"
    from path_honest [OF v] show "I h' (a + x)"
    proof
      assume "x = 0 \<and> h' = h"
      with i show ?thesis by simp
    next
      assume x: "x = 1"
      from v have "non_walls h' \<subset> non_walls h" unfolding x by (rule path_erodes)
      moreover from i have "0 \<le> a" "non_walls h \<subseteq> non_walls g" by (auto simp: I_def)
      ultimately have "0 < a + x" "non_walls h' \<subset> non_walls g" using x by auto
      then show ?thesis by (simp add: I_def)
    qed
  qed
  with assms(2) show ?thesis by (simp add: I_def)
qed

lemma erosion_terminates: "\<exists>res. stable_loop visitor_for_path l_loops l_changes g = Some res"
proof (induction "card (non_walls g)" arbitrary: g l_loops l_changes rule: less_induct)
  case less
  show ?case
  proof (cases "l_loops = 0 \<or> l_changes \<noteq> 0")
    case False
    then show ?thesis by (subst stable_loop.simps) simp
  next
    case True
    show ?thesis
    proof (cases "grid_pass (+) visitor_for_path g 0")
      case (Inl e)
      with True show ?thesis by (subst stable_loop.simps) simp
    next
      case (Inr p)
      obtain g' ch where p: "p = (g', ch)" by (cases p)
      have unfold: "stable_loop visitor_for_path l_loops l_changes g
                      = stable_loop visitor_for_path (l_loops + 1) ch g'"
        using True Inr p by (subst stable_loop.simps) simp
      show ?thesis
      proof (cases "ch = 0")
        case True
        then show ?thesis unfolding unfold by (subst stable_loop.simps) simp
      next
        case False
        from Inr p have "grid_pass (+) visitor_for_path g 0 = Inr (g', ch)" by simp
        then have "non_walls g' \<subset> non_walls g" using False by (rule erosion_pass_shrinks)
        then have "card (non_walls g') < card (non_walls g)"
          by (intro psubset_card_mono finite_non_walls)
        then show ?thesis unfolding unfold by (rule less)
      qed
    qed
  qed
qed

text \<open>Whatever grid the loop returns, a further pass over it changes nothing.\<close>

lemma stable_loop_fixed:
  assumes honest: "\<And>g r c g' x. v g r c = Inr (g', x) \<Longrightarrow> (x = 0 \<and> g' = g) \<or> x = 1"
    and run: "stable_loop v l_loops l_changes g = Some (Inr g')"
  shows "(l_loops \<noteq> 0 \<and> l_changes = 0 \<and> g' = g) \<or> grid_pass (+) v g' 0 = Inr (g', 0)"
proof -
  define Q where "Q w l ch h res \<longleftrightarrow>
      (w = v \<longrightarrow> (\<forall>h'. res = Inr h' \<longrightarrow>
          (l \<noteq> 0 \<and> ch = 0 \<and> h' = h) \<or> grid_pass (+) v h' 0 = Inr (h', 0)))"
    for w :: visitor and l :: nat and ch :: int and h :: grid and res :: "error + grid"
  have "Q v l_loops l_changes g (Inr g')"
  proof (rule stable_loop.raw_induct [where P = Q])
    show "stable_loop v l_loops l_changes g = Some (Inr g')" by fact
  next
    fix loop :: "visitor \<Rightarrow> nat \<Rightarrow> int \<Rightarrow> grid \<Rightarrow> (error + grid) option"
      and w :: visitor and l :: nat and ch :: int and h :: grid and res :: "error + grid"
    assume ih: "\<And>w l ch h res. loop w l ch h = Some res \<Longrightarrow> Q w l ch h res"
      and body: "(if l = 0 \<or> ch \<noteq> 0
                  then case grid_pass (+) w h 0 of
                         Inl e \<Rightarrow> Some (Inl e)
                       | Inr (g', l_changes') \<Rightarrow> loop w (l + 1) l_changes' g'
                  else Some (Inr h)) = Some res"
    show "Q w l ch h res"
      unfolding Q_def
    proof (intro impI allI)
      fix h'
      assume w: "w = v" and res: "res = Inr h'"
      show "(l \<noteq> 0 \<and> ch = 0 \<and> h' = h) \<or> grid_pass (+) v h' 0 = Inr (h', 0)"
      proof (cases "l = 0 \<or> ch \<noteq> 0")
        case False
        with body res show ?thesis by simp
      next
        case True
        with body w res obtain h1 ch1 where pass: "grid_pass (+) v h 0 = Inr (h1, ch1)"
          and rec: "loop v (l + 1) ch1 h1 = Some (Inr h')"
          by (cases "grid_pass (+) v h 0") auto
        from ih [OF rec] have "(ch1 = 0 \<and> h' = h1) \<or> grid_pass (+) v h' 0 = Inr (h', 0)"
          by (simp add: Q_def)
        then show ?thesis
        proof
          assume a: "ch1 = 0 \<and> h' = h1"
          with grid_pass_quiet(2) [where v = v, OF honest pass] have "h1 = h" by simp
          with a pass show ?thesis by simp
        qed simp
      qed
    qed
  qed
  then show ?thesis by (simp add: Q_def)
qed

lemma erosion_fixed:
  assumes "apply_visitor_until_stable g visitor_for_path = Some (Inr g')"
  shows "grid_pass (+) visitor_for_path g' 0 = Inr (g', 0)"
  using stable_loop_fixed [where v = visitor_for_path, OF path_honest assms [unfolded apply_visitor_until_stable_def]]
  by simp

lemma quiet_pass_returns:
  assumes "grid_pass (+) v g 0 = Inr (g, 0)"
  shows "apply_visitor_until_stable g v = Some (Inr g)"
proof -
  have "stable_loop v 0 0 g = stable_loop v 1 0 g"
    using assms by (subst stable_loop.simps) simp
  also have "\<dots> = Some (Inr g)"
    by (subst stable_loop.simps) simp
  finally show ?thesis by (simp add: apply_visitor_until_stable_def)
qed


subsection \<open>Passes that cannot raise\<close>

lemma same_lengths:
  fixes g g' :: grid
  assumes "map length g' = map length g"
  shows "length g' = length g" and "r < length g \<Longrightarrow> length (g' ! r) = length (g ! r)"
proof -
  show l: "length g' = length g" using assms by (rule map_eq_imp_length_eq)
  show "length (g' ! r) = length (g ! r)" if "r < length g"
    using that l nth_map [of r g' length] nth_map [of r g length] assms by simp
qed

lemma rectangular_lengths:
  "rectangular g \<longleftrightarrow> (\<forall>n \<in> set (map length g). n = hd (map length g))"
  by (cases g) (auto simp: rectangular_def)

lemma rectangular_same_lengths:
  "map length g' = map length g \<Longrightarrow> rectangular g' = rectangular g"
  by (simp add: rectangular_lengths)

lemma map_length_update_cell [simp]: "map length (g[r := (g ! r)[c := v]]) = map length g"
  by (rule nth_equalityI) (simp_all add: nth_list_update)

lemma visit_columns_total:
  fixes g0 :: grid
  assumes total: "\<And>h c. I h \<Longrightarrow> map length h = map length g0 \<Longrightarrow> c < length (g0 ! r) \<Longrightarrow>
      \<exists>h' x. v h (int r) (int c) = Inr (h', x) \<and> I h' \<and> map length h' = map length g0"
  shows "I g \<Longrightarrow> map length g = map length g0 \<Longrightarrow> \<forall>c \<in> set cs. c < length (g0 ! r) \<Longrightarrow>
           \<exists>g' a'. visit_columns f v r cs g acc = Inr (g', a') \<and> I g' \<and> map length g' = map length g0"
proof (induction cs arbitrary: g acc)
  case Nil
  then show ?case by simp
next
  case (Cons c cs)
  from Cons.prems obtain h' x where v: "v g (int r) (int c) = Inr (h', x)"
    and h': "I h'" "map length h' = map length g0"
    using total [of g c] by auto
  from Cons.IH [OF h', of "f acc x"] Cons.prems(3) v show ?case by simp
qed

lemma visit_rows_total:
  fixes g0 :: grid
  assumes total: "\<And>h r c. I h \<Longrightarrow> map length h = map length g0 \<Longrightarrow> r < length g0 \<Longrightarrow>
      c < length (g0 ! r) \<Longrightarrow>
      \<exists>h' x. v h (int r) (int c) = Inr (h', x) \<and> I h' \<and> map length h' = map length g0"
  shows "I g \<Longrightarrow> map length g = map length g0 \<Longrightarrow> \<forall>r \<in> set rs. r < length g0 \<Longrightarrow>
           \<exists>g' a'. visit_rows f v rs g acc = Inr (g', a') \<and> I g' \<and> map length g' = map length g0"
proof (induction rs arbitrary: g acc)
  case Nil
  then show ?case by simp
next
  case (Cons r rs)
  have r: "r < length g0" using Cons.prems(3) by simp
  then have rg: "r < length g" "length (g ! r) = length (g0 ! r)"
    using same_lengths [OF Cons.prems(2)] by simp_all
  have "\<exists>g1 a1. visit_columns f v r [0..<length (g0 ! r)] g acc = Inr (g1, a1) \<and> I g1
          \<and> map length g1 = map length g0"
  proof (rule visit_columns_total [where I = I])
    show "I g" "map length g = map length g0" by fact+
    show "\<forall>c \<in> set [0..<length (g0 ! r)]. c < length (g0 ! r)" by simp
    show "\<exists>h' x. v h (int r) (int c) = Inr (h', x) \<and> I h' \<and> map length h' = map length g0"
      if "I h" "map length h = map length g0" "c < length (g0 ! r)" for h c
      using that r by (intro total)
  qed
  then obtain g1 a1 where cols: "visit_columns f v r [0..<length (g0 ! r)] g acc = Inr (g1, a1)"
    and g1: "I g1" "map length g1 = map length g0" by blast
  from Cons.IH [OF g1, of a1] Cons.prems(3) cols rg show ?case by simp
qed

lemma grid_pass_total:
  fixes g :: grid
  assumes "\<And>h r c. I h \<Longrightarrow> map length h = map length g \<Longrightarrow> r < length g \<Longrightarrow>
      c < length (g ! r) \<Longrightarrow>
      \<exists>h' x. v h (int r) (int c) = Inr (h', x) \<and> I h' \<and> map length h' = map length g"
    and "I g"
  shows "\<exists>g' a'. grid_pass f v g acc = Inr (g', a') \<and> I g' \<and> map length g' = map length g"
  unfolding grid_pass_def
proof (rule visit_rows_total [where I = I])
  show "I g" by fact
  show "map length g = map length g" by simp
  show "\<forall>r \<in> set [0..<length g]. r < length g" by simp
  show "\<exists>h' x. v h (int r) (int c) = Inr (h', x) \<and> I h' \<and> map length h' = map length g"
    if "I h" "map length h = map length g" "r < length g" "c < length (g ! r)" for h r c
    using that by (intro assms(1))
qed

lemma path_total:
  fixes g :: grid
  assumes "rectangular h" "map length h = map length g" "r < length g" "c < length (g ! r)"
  shows "\<exists>h' x. visitor_for_path h (int r) (int c) = Inr (h', x) \<and> rectangular h'
           \<and> map length h' = map length g"
proof -
  have in_h: "r < length h" "c < length (h ! r)"
    using same_lengths [OF assms(2)] assms(3,4) by simp_all
  have "visitor_for_path h (int r) (int c) =
          (if adjacency h r c = 1 then Inr (h[r := (h ! r)[c := ''X'']], 1) else Inr (h, 0))"
    using assms(1) in_h by (simp add: visitor_for_path_def adjacency_rule_pure)
  moreover have "rectangular (h[r := (h ! r)[c := ''X'']])"
    using assms(1) by (simp add: rectangular_same_lengths [of "h[r := (h ! r)[c := ''X'']]" h])
  ultimately show ?thesis using assms(1,2) by simp
qed

lemma erosion_pass_total:
  assumes "rectangular g"
  shows "\<exists>g' ch. grid_pass (+) visitor_for_path g 0 = Inr (g', ch) \<and> rectangular g'"
  using grid_pass_total [where I = rectangular and v = visitor_for_path and g = g and f = "(+)" and acc = 0]
    path_total assms by blast

lemma erosion_returns:
  "rectangular g \<Longrightarrow> \<exists>g'. stable_loop visitor_for_path l_loops l_changes g = Some (Inr g')"
proof (induction "card (non_walls g)" arbitrary: g l_loops l_changes rule: less_induct)
  case less
  show ?case
  proof (cases "l_loops = 0 \<or> l_changes \<noteq> 0")
    case False
    then show ?thesis by (subst stable_loop.simps) simp
  next
    case True
    from erosion_pass_total [OF less.prems] obtain g' ch
      where pass: "grid_pass (+) visitor_for_path g 0 = Inr (g', ch)" and rect: "rectangular g'"
      by blast
    have unfold: "stable_loop visitor_for_path l_loops l_changes g
                    = stable_loop visitor_for_path (l_loops + 1) ch g'"
      using True pass by (subst stable_loop.simps) simp
    show ?thesis
    proof (cases "ch = 0")
      case True
      then show ?thesis unfolding unfold by (subst stable_loop.simps) simp
    next
      case False
      from pass False have "non_walls g' \<subset> non_walls g" by (rule erosion_pass_shrinks)
      then have "card (non_walls g') < card (non_walls g)"
        by (intro psubset_card_mono finite_non_walls)
      then show ?thesis unfolding unfold using rect by (rule less.hyps)
    qed
  qed
qed

section \<open>Claims about erosion\<close>

text \<open>
  Claim C5, as stated: once erosion has converged, every cell that is not a wall has an
  adjacency value of at least 2 or is START or END. An OPEN cell with no open neighbour
  has the value 0; the dead-end rule, which acts on the value 1 only, leaves it.
\<close>

theorem isolated_open_cell_survives:
  "apply_visitor_until_stable [[''X'', ''X'', ''X''], [''X'', '' '', ''X''], [''X'', ''X'', ''X'']] visitor_for_path
     = Some (Inr [[''X'', ''X'', ''X''], [''X'', '' '', ''X''], [''X'', ''X'', ''X'']])
   \<and> visitor_for_adjacency [[''X'', ''X'', ''X''], [''X'', '' '', ''X''], [''X'', ''X'', ''X'']] 1 1
     = Inr ([[''X'', ''X'', ''X''], [''X'', '' '', ''X''], [''X'', ''X'', ''X'']], 0)"
  by code_simp

text \<open>
  Claim C5, amended: in the grid that erosion returns, the adjacency rule has at every
  cell a value other than 1, that is 0, 2, 3 or 4; no cell with exactly one open
  direction survives, while a cell with none does.
\<close>

theorem no_dead_end_after_erosion:
  assumes "apply_visitor_until_stable g visitor_for_path = Some (Inr g')"
    and "r < length g'" and "c < length (g' ! r)"
  shows "\<exists>n. visitor_for_adjacency g' (int r) (int c) = Inr (g', n) \<and> n \<noteq> 1 \<and> 0 \<le> n \<and> n \<le> 4"
proof -
  have "grid_pass (+) visitor_for_path g' 0 = Inr (g', 0)"
    using assms(1) by (rule erosion_fixed)
  then have "visitor_for_path g' (int r) (int c) = Inr (g', 0)"
    using assms(2,3) by (intro grid_pass_quiet(3) [where v = visitor_for_path and ch = 0 and g' = g'] path_honest) simp_all
  then obtain n where n: "visitor_for_adjacency g' (int r) (int c) = Inr (g', n)" "n \<noteq> 1"
    using path_cases [of g' "int r" "int c" g' 0] by auto
  with adjacency_pure [OF n(1)] show ?thesis by simp
qed

theorem no_dead_end_after_erosion_witness:
  "apply_visitor_until_stable
      [[''X'', '' '', ''X'', ''X''], [''X'', '' '', '' '', ''X''], [''X'', '' '', ''X'', ''X'']] visitor_for_path
     = Some (Inr [[''X'', '' '', ''X'', ''X''], [''X'', '' '', ''X'', ''X''], [''X'', '' '', ''X'', ''X'']])
   \<and> (1::nat) < length [[''X'', '' '', ''X'', ''X''], [''X'', '' '', ''X'', ''X''], [''X'', '' '', ''X'', ''X'']]
   \<and> (1::nat) < length ([[''X'', '' '', ''X'', ''X''], [''X'', '' '', ''X'', ''X''], [''X'', '' '', ''X'', ''X'']] ! 1)
   \<and> (\<exists>n. visitor_for_adjacency
              [[''X'', '' '', ''X'', ''X''], [''X'', '' '', ''X'', ''X''], [''X'', '' '', ''X'', ''X'']] (int 1) (int 1)
            = Inr ([[''X'', '' '', ''X'', ''X''], [''X'', '' '', ''X'', ''X''], [''X'', '' '', ''X'', ''X'']], n)
          \<and> n \<noteq> 1 \<and> 0 \<le> n \<and> n \<le> 4)"
proof -
  let ?g = "[[''X'', '' '', ''X'', ''X''], [''X'', '' '', '' '', ''X''], [''X'', '' '', ''X'', ''X'']]"
  let ?g' = "[[''X'', '' '', ''X'', ''X''], [''X'', '' '', ''X'', ''X''], [''X'', '' '', ''X'', ''X'']]"
  have run: "apply_visitor_until_stable ?g visitor_for_path = Some (Inr ?g')"
    by code_simp
  have "(1::nat) < length ?g'" "(1::nat) < length (?g' ! 1)"
    by simp_all
  with run no_dead_end_after_erosion [OF run, of 1 1] show ?thesis
    by simp
qed

text \<open>
  Claim C9: running erosion to its fixed point twice in a row gives the grid that running
  it once gives. On every grid the first run ends, either by raising (then there is no
  second run) or with a grid on which the second run returns that same grid; on a
  rectangular grid it never raises.
\<close>

theorem erosion_idempotent:
  "((\<exists>e. apply_visitor_until_stable g visitor_for_path = Some (Inl e)) \<or>
    (\<exists>g'. apply_visitor_until_stable g visitor_for_path = Some (Inr g')
        \<and> apply_visitor_until_stable g' visitor_for_path = Some (Inr g')))
   \<and> (rectangular g \<longrightarrow>
        (\<exists>g'. apply_visitor_until_stable g visitor_for_path = Some (Inr g')
           \<and> apply_visitor_until_stable g' visitor_for_path = Some (Inr g')))"
proof -
  have again: "apply_visitor_until_stable g' visitor_for_path = Some (Inr g')"
    if "apply_visitor_until_stable g visitor_for_path = Some (Inr g')" for g'
    using that by (intro quiet_pass_returns erosion_fixed)
  obtain res where res: "apply_visitor_until_stable g visitor_for_path = Some res"
    using erosion_terminates [of 0 0 g] by (auto simp: apply_visitor_until_stable_def)
  have first: "(\<exists>e. apply_visitor_until_stable g visitor_for_path = Some (Inl e)) \<or>
    (\<exists>g'. apply_visitor_until_stable g visitor_for_path = Some (Inr g')
        \<and> apply_visitor_until_stable g' visitor_for_path = Some (Inr g'))"
  proof (cases res)
    case (Inl e)
    with res show ?thesis by simp
  next
    case (Inr g')
    with res again [of g'] show ?thesis by simp
  qed
  have second: "\<exists>g'. apply_visitor_until_stable g visitor_for_path = Some (Inr g')
           \<and> apply_visitor_until_stable g' visitor_for_path = Some (Inr g')" if "rectangular g"
  proof -
    from erosion_returns [OF that, of 0 0] obtain g'
      where "apply_visitor_until_stable g visitor_for_path = Some (Inr g')"
      by (auto simp: apply_visitor_until_stable_def)
    with again [of g'] show ?thesis by blast
  qed
  from first second show ?thesis by blast
qed

theorem erosion_idempotent_witness:
  "rectangular [[''X'', '' '', ''X'', ''X''], [''X'', '' '', '' '', ''X''], [''X'', '' '', ''X'', ''X'']]
   \<and> (\<exists>g'. apply_visitor_until_stable
               [[''X'', '' '', ''X'', ''X''], [''X'', '' '', '' '', ''X''], [''X'', '' '', ''X'', ''X'']] visitor_for_path
             = Some (Inr g')
          \<and> apply_visitor_until_stable g' visitor_for_path = Some (Inr g'))"
proof -
  have "rectangular [[''X'', '' '', ''X'', ''X''], [''X'', '' '', '' '', ''X''], [''X'', '' '', ''X'', ''X'']]"
    by (simp add: rectangular_def)
  then show ?thesis
    using erosion_idempotent [of "[[''X'', '' '', ''X'', ''X''], [''X'', '' '', '' '', ''X''], [''X'', '' '', ''X'', ''X'']]"]
    by blast
qed


section \<open>The main loop on a maze with dead-end START and END\<close>

lemma first_round: "loop_body dead_end_maze = Some (Inr (Again stuck_maze))"
  by code_simp

lemma later_rounds: "loop_body stuck_maze = Some (Inr (Again stuck_maze))"
  by code_simp

text \<open>A round that hands on the grid it started from is repeated for ever.\<close>

lemma main_loop_cycle:
  assumes enter: "loop_body a = Some (Inr (Again b))"
    and stay: "loop_body b = Some (Inr (Again b))"
  shows "main_loop a = None"
proof -
  define Q where "Q h r \<longleftrightarrow> h \<noteq> a \<and> h \<noteq> b"
    for h :: grid and r :: "error + grid"
  have avoid: "Q g res" if run: "main_loop g = Some res" for g res
  proof (rule main_loop.raw_induct [where P = Q])
    show "main_loop g = Some res" by fact
  next
    fix loop :: "grid \<Rightarrow> (error + grid) option" and h :: grid and r :: "error + grid"
    assume ih: "\<And>h r. loop h = Some r \<Longrightarrow> Q h r"
      and body: "(case loop_body h of
                    None \<Rightarrow> None
                  | Some (Inl e) \<Rightarrow> Some (Inl e)
                  | Some (Inr (Again g)) \<Rightarrow> loop g
                  | Some (Inr (Done g)) \<Rightarrow> Some (Inr g)) = Some r"
    have "loop b = Some r" if "h = a \<or> h = b"
      using that body by (auto simp: enter stay)
    then have "\<not> (h = a \<or> h = b)"
      using ih [of b r] by (auto simp: Q_def)
    then show "Q h r" by (simp add: Q_def)
  qed
  show ?thesis
  proof (cases "main_loop a")
    case (Some res)
    with avoid [of a res] show ?thesis by (simp add: Q_def)
  qed simp
qed

text \<open>The same happens on a one-row grid, where START is never eroded: after the first
  round has walled off the only OPEN cell, START keeps three off-grid directions.\<close>

lemma one_row_never_returns: "main_loop [[''S'', '' '', ''E'']] = None"
proof (rule main_loop_cycle)
  show "loop_body [[''S'', '' '', ''E'']] = Some (Inr (Again [[''S'', ''X'', ''E'']]))"
    by code_simp
  show "loop_body [[''S'', ''X'', ''E'']] = Some (Inr (Again [[''S'', ''X'', ''E'']]))"
    by code_simp
qed

text \<open>
  Claim C2 says that the main loop ends on every rectangular grid with exactly one START
  and an OPEN path reachable from it. On the maze \<open>dead_end_maze\<close> it never returns:
  erosion removes START and END, the room that is left keeps a cell with three open
  neighbours, no distance is ever assigned, the greatest distance found is the initial 0,
  \<^verbatim>\<open>break_loops\<close> with target \<open>0\<close> changes nothing, and every later round starts from
  the same grid.
\<close>

theorem main_never_returns: "main dead_end_maze = None"
  unfolding main_def using first_round later_rounds by (rule main_loop_cycle)

text \<open>
  Claim C3 says that a round of the main loop either ends the loop or adds a wall. The
  round that starts from \<open>stuck_maze\<close>, the grid after the first round on
  \<open>dead_end_maze\<close>, does neither: erosion changes nothing, the greatest adjacency is 3,
  no distance is assigned, and the round hands on the grid it started from. So does the
  round on the one-row grid \<open>S,X,E\<close>, where START and END are present.
\<close>

theorem round_without_progress:
  "apply_visitor_until_stable stuck_maze visitor_for_path = Some (Inr stuck_maze)
   \<and> apply_visitor_compute_max stuck_maze visitor_for_adjacency = Inr (stuck_maze, 3)
   \<and> apply_visitor_until_stable stuck_maze visitor_for_path_length = Some (Inr stuck_maze)
   \<and> apply_visitor_compute_max stuck_maze visitor_for_length = Inr (stuck_maze, 0)
   \<and> py_str 0 = Inr ''0''
   \<and> break_loops stuck_maze ''0'' = Inr stuck_maze
   \<and> loop_body stuck_maze = Some (Inr (Again stuck_maze))
   \<and> loop_body dead_end_maze = Some (Inr (Again stuck_maze))
   \<and> loop_body [[''S'', ''X'', ''E'']] = Some (Inr (Again [[''S'', ''X'', ''E'']]))"
  by code_simp


section \<open>The HTML variant against the plain one\<close>

subsection \<open>Grids that can be drawn\<close>

lemma svg_cell_returns: "s \<noteq> [] \<Longrightarrow> \<exists>x. svg_cell s = Inr x"
  by (simp add: svg_cell_def getitem_def subscript_def)

lemma svg_columns_returns:
  "r < length g \<Longrightarrow> \<forall>c \<in> set cs. c < length (g ! r) \<and> g ! r ! c \<noteq> [] \<Longrightarrow>
     \<exists>out. svg_columns g r cs = Inr out"
proof (induction cs)
  case Nil
  then show ?case by simp
next
  case (Cons c cs)
  then obtain x where "svg_cell (g ! r ! c) = Inr x"
    using svg_cell_returns [of "g ! r ! c"] by auto
  moreover from Cons obtain out where "svg_columns g r cs = Inr out" by auto
  ultimately show ?case using Cons.prems by simp
qed

lemma svg_rows_returns:
  "renderable g \<Longrightarrow> \<forall>r \<in> set rs. r < length g \<Longrightarrow> \<exists>out. svg_rows g rs = Inr out"
proof (induction rs)
  case Nil
  then show ?case by simp
next
  case (Cons r rs)
  have first: "getitem g 0 = Inr (g ! 0)"
    using Cons.prems(1) by (simp add: renderable_def getitem_def subscript_def)
  have "r < length g" using Cons.prems(2) by simp
  moreover have "\<forall>c \<in> set [0..<length (g ! 0)]. c < length (g ! r) \<and> g ! r ! c \<noteq> []"
    using Cons.prems \<open>r < length g\<close> by (auto simp: renderable_def)
  ultimately obtain xs where "svg_columns g r [0..<length (g ! 0)] = Inr xs"
    using svg_columns_returns by blast
  moreover from Cons obtain ys where "svg_rows g rs = Inr ys" by auto
  ultimately show ?case using first by simp
qed

lemma render_returns: "renderable g \<Longrightarrow> \<exists>out. html_svg_write_matrix g = Inr out"
  using svg_rows_returns [of g "[0..<length g]"]
  by (simp add: html_svg_write_matrix_def renderable_def getitem_def subscript_def)

lemma renderable_update:
  assumes "renderable g" "v \<noteq> []"
  shows "renderable (g[i := (g ! i)[j := v]])"
  unfolding renderable_def
proof (intro conjI allI impI)
  show "g[i := (g ! i)[j := v]] \<noteq> []" using assms(1) by (simp add: renderable_def)
next
  fix r assume "r < length (g[i := (g ! i)[j := v]])"
  then have r: "r < length g" by simp
  then show "length (g[i := (g ! i)[j := v]] ! 0) \<le> length (g[i := (g ! i)[j := v]] ! r)"
    using assms(1) by (simp add: renderable_def)
  fix c assume "c < length (g[i := (g ! i)[j := v]] ! 0)"
  then have c: "c < length (g ! 0)" by simp
  with r assms(1) have "c < length (g ! r)" "g ! r ! c \<noteq> []"
    by (auto simp: renderable_def dest: order_less_le_trans)
  with r assms(2) show "g[i := (g ! i)[j := v]] ! r ! c \<noteq> []"
    by (simp add: nth_update_cell)
qed

lemma renderable_set_cell:
  "set_cell g r c v = Inr g' \<Longrightarrow> renderable g \<Longrightarrow> v \<noteq> [] \<Longrightarrow> renderable g'"
  by (auto dest!: set_cell_Inr intro: renderable_update)

lemma path_renderable:
  "visitor_for_path g r c = Inr (g', x) \<Longrightarrow> renderable g \<Longrightarrow> renderable g'"
  using path_cases [of g r c g' x] by (auto intro: renderable_set_cell [where v = "''X''"])

lemma path_length_renderable:
  "visitor_for_path_length g r c = Inr (g', x) \<Longrightarrow> renderable g \<Longrightarrow> renderable g'"
  using path_length_cases [of g r c g' x] decimal_nonempty
  by (auto intro: renderable_set_cell)

lemma grid_pass_renderable:
  assumes keeps: "\<And>g r c g' x. v g r c = Inr (g', x) \<Longrightarrow> renderable g \<Longrightarrow> renderable g'"
    and "grid_pass f v g acc = Inr (g', acc')" and "renderable g"
  shows "renderable g'"
proof (rule grid_pass_invariant [where I = "\<lambda>h a. renderable h" and f = f and v = v])
  show "renderable g" by fact
  show "grid_pass f v g acc = Inr (g', acc')" by fact
  show "\<And>g acc r c g' x. renderable g \<Longrightarrow> v g (int r) (int c) = Inr (g', x) \<Longrightarrow> renderable g'"
    using keeps by blast
qed

lemma broken_nonempty: "s \<noteq> [] \<Longrightarrow> broken p_max s \<noteq> []"
  by (simp add: broken_def split: option.splits)

lemma break_loops_renderable:
  assumes "break_loops g p_max = Inr g'" "renderable g"
  shows "renderable g'"
proof -
  have g': "g' = map (map (broken p_max)) g" using assms(1) by (simp add: break_loops_map)
  show ?thesis
    unfolding renderable_def g'
  proof (intro conjI allI impI)
    show "map (map (broken p_max)) g \<noteq> []" using assms(2) by (simp add: renderable_def)
  next
    fix r assume "r < length (map (map (broken p_max)) g)"
    then have r: "r < length g" by simp
    have z: "0 < length g" using assms(2) by (simp add: renderable_def)
    show "length (map (map (broken p_max)) g ! 0) \<le> length (map (map (broken p_max)) g ! r)"
      using r z assms(2) by (simp add: renderable_def)
    fix c assume "c < length (map (map (broken p_max)) g ! 0)"
    then have c: "c < length (g ! 0)" using z by simp
    with r assms(2) have "c < length (g ! r)" "g ! r ! c \<noteq> []"
      by (auto simp: renderable_def dest: order_less_le_trans)
    then show "map (map (broken p_max)) g ! r ! c \<noteq> []"
      using r by (simp add: broken_nonempty)
  qed
qed

lemma compute_max_same_grid:
  assumes pure: "\<And>g r c g' x. v g r c = Inr (g', x) \<Longrightarrow> g' = g"
    and "apply_visitor_compute_max g v = Inr (g', m)"
  shows "g' = g"
proof -
  have pass: "h' = h" if "grid_pass max v h a = Inr (h', a')" for h h' a a'
  proof (rule grid_pass_invariant [where I = "\<lambda>k b. k = h" and f = max and v = v])
    show "h = h" by simp
    show "grid_pass max v h a = Inr (h', a')" by fact
    show "\<And>g acc r c g' x. g = h \<Longrightarrow> v g (int r) (int c) = Inr (g', x) \<Longrightarrow> g' = h"
      using pure by blast
  qed
  from assms(2) obtain g1 m1 where p1: "grid_pass max v g 0 = Inr (g1, m1)"
    and rest: "compute_max_loop v 1 0 m1 g1 = Inr (g', m)"
    unfolding apply_visitor_compute_max_def
    by (subst (asm) compute_max_loop.simps) (auto split: sum.splits)
  from rest have "g' = g1" by (subst (asm) compute_max_loop.simps) simp
  with pass [OF p1] show ?thesis by simp
qed

lemma adjacency_max_same_grid:
  "apply_visitor_compute_max g visitor_for_adjacency = Inr (g', m) \<Longrightarrow> g' = g"
  by (rule compute_max_same_grid [where v = visitor_for_adjacency]) (auto dest: adjacency_pure)

lemma length_max_same_grid:
  "apply_visitor_compute_max g visitor_for_length = Inr (g', m) \<Longrightarrow> g' = g"
  by (rule compute_max_same_grid [where v = visitor_for_length])
     (auto simp: visitor_for_length_def split: sum.splits)


subsection \<open>The two fixed-point runners\<close>

lemma stable_loop_to_html:
  assumes keeps: "\<And>g r c g' x. v g r c = Inr (g', x) \<Longrightarrow> renderable g \<Longrightarrow> renderable g'"
    and run: "stable_loop v l_loops l_changes g = Some res" and ok: "renderable g"
  shows "html_stable_loop v l_loops l_changes g = Some res \<and> (\<forall>g'. res = Inr g' \<longrightarrow> renderable g')"
proof -
  define Q where "Q w l ch h r \<longleftrightarrow>
      (w = v \<longrightarrow> renderable h \<longrightarrow>
         html_stable_loop v l ch h = Some r \<and> (\<forall>h'. r = Inr h' \<longrightarrow> renderable h'))"
    for w :: visitor and l :: nat and ch :: int and h :: grid and r :: "error + grid"
  have "Q v l_loops l_changes g res"
  proof (rule stable_loop.raw_induct [where P = Q])
    show "stable_loop v l_loops l_changes g = Some res" by fact
  next
    fix loop :: "visitor \<Rightarrow> nat \<Rightarrow> int \<Rightarrow> grid \<Rightarrow> (error + grid) option"
      and w :: visitor and l :: nat and ch :: int and h :: grid and r :: "error + grid"
    assume ih: "\<And>w l ch h r. loop w l ch h = Some r \<Longrightarrow> Q w l ch h r"
      and body: "(if l = 0 \<or> ch \<noteq> 0
                  then case grid_pass (+) w h 0 of
                         Inl e \<Rightarrow> Some (Inl e)
                       | Inr (g', l_changes') \<Rightarrow> loop w (l + 1) l_changes' g'
                  else Some (Inr h)) = Some r"
    show "Q w l ch h r"
      unfolding Q_def
    proof (intro impI)
      assume w: "w = v" and h: "renderable h"
      show "html_stable_loop v l ch h = Some r \<and> (\<forall>h'. r = Inr h' \<longrightarrow> renderable h')"
      proof (cases "l = 0 \<or> ch \<noteq> 0")
        case False
        with body h show ?thesis by (subst html_stable_loop.simps) auto
      next
        case True
        show ?thesis
        proof (cases "grid_pass (+) v h 0")
          case (Inl e)
          with True body w show ?thesis by (subst html_stable_loop.simps) auto
        next
          case (Inr p)
          obtain h1 ch1 where p: "p = (h1, ch1)" by (cases p)
          with Inr have pass: "grid_pass (+) v h 0 = Inr (h1, ch1)" by simp
          have h1: "renderable h1" using keeps pass h by (rule grid_pass_renderable)
          then obtain out where out: "html_svg_write_matrix h1 = Inr out"
            using render_returns by blast
          from body True w pass have "loop v (l + 1) ch1 h1 = Some r" by simp
          from ih [OF this] h1 have "html_stable_loop v (l + 1) ch1 h1 = Some r"
            "\<forall>h'. r = Inr h' \<longrightarrow> renderable h'"
            by (simp_all add: Q_def)
          then show ?thesis using True pass out by (subst html_stable_loop.simps) simp
        qed
      qed
    qed
  qed
  with ok show ?thesis by (simp add: Q_def)
qed

lemma html_to_stable_loop:
  assumes keeps: "\<And>g r c g' x. v g r c = Inr (g', x) \<Longrightarrow> renderable g \<Longrightarrow> renderable g'"
    and run: "html_stable_loop v l_loops l_changes g = Some res" and ok: "renderable g"
  shows "stable_loop v l_loops l_changes g = Some res"
proof -
  define Q where "Q w l ch h r \<longleftrightarrow> (w = v \<longrightarrow> renderable h \<longrightarrow> stable_loop v l ch h = Some r)"
    for w :: visitor and l :: nat and ch :: int and h :: grid and r :: "error + grid"
  have "Q v l_loops l_changes g res"
  proof (rule html_stable_loop.raw_induct [where P = Q])
    show "html_stable_loop v l_loops l_changes g = Some res" by fact
  next
    fix loop :: "visitor \<Rightarrow> nat \<Rightarrow> int \<Rightarrow> grid \<Rightarrow> (error + grid) option"
      and w :: visitor and l :: nat and ch :: int and h :: grid and r :: "error + grid"
    assume ih: "\<And>w l ch h r. loop w l ch h = Some r \<Longrightarrow> Q w l ch h r"
      and body: "(if l = 0 \<or> ch \<noteq> 0
                  then case grid_pass (+) w h 0 of
                         Inl e \<Rightarrow> Some (Inl e)
                       | Inr (g', l_changes') \<Rightarrow>
                           (case html_svg_write_matrix g' of
                              Inl e \<Rightarrow> Some (Inl e)
                            | Inr out \<Rightarrow> loop w (l + 1) l_changes' g')
                  else Some (Inr h)) = Some r"
    show "Q w l ch h r"
      unfolding Q_def
    proof (intro impI)
      assume w: "w = v" and h: "renderable h"
      show "stable_loop v l ch h = Some r"
      proof (cases "l = 0 \<or> ch \<noteq> 0")
        case False
        with body show ?thesis by (subst stable_loop.simps) auto
      next
        case True
        show ?thesis
        proof (cases "grid_pass (+) v h 0")
          case (Inl e)
          with True body w show ?thesis by (subst stable_loop.simps) auto
        next
          case (Inr p)
          obtain h1 ch1 where p: "p = (h1, ch1)" by (cases p)
          with Inr have pass: "grid_pass (+) v h 0 = Inr (h1, ch1)" by simp
          have h1: "renderable h1" using keeps pass h by (rule grid_pass_renderable)
          then obtain out where out: "html_svg_write_matrix h1 = Inr out"
            using render_returns by blast
          from body True w pass out have "loop v (l + 1) ch1 h1 = Some r" by simp
          from ih [OF this] h1 have "stable_loop v (l + 1) ch1 h1 = Some r"
            by (simp add: Q_def)
          then show ?thesis using True pass by (subst stable_loop.simps) simp
        qed
      qed
    qed
  qed
  with ok show ?thesis by (simp add: Q_def)
qed

lemma until_stable_same:
  assumes keeps: "\<And>g r c g' x. v g r c = Inr (g', x) \<Longrightarrow> renderable g \<Longrightarrow> renderable g'"
    and ok: "renderable g"
  shows "html_apply_visitor_until_stable g v = apply_visitor_until_stable g v"
proof (cases "stable_loop v 0 0 g")
  case (Some res)
  with stable_loop_to_html [where v = v, OF keeps Some ok] show ?thesis
    by (simp add: html_apply_visitor_until_stable_def apply_visitor_until_stable_def)
next
  case None
  have "html_stable_loop v 0 0 g = None"
  proof (cases "html_stable_loop v 0 0 g")
    case (Some res)
    with html_to_stable_loop [where v = v, OF keeps Some ok] None show ?thesis by simp
  qed simp
  with None show ?thesis
    by (simp add: html_apply_visitor_until_stable_def apply_visitor_until_stable_def)
qed

lemma until_stable_renderable:
  assumes keeps: "\<And>g r c g' x. v g r c = Inr (g', x) \<Longrightarrow> renderable g \<Longrightarrow> renderable g'"
    and "apply_visitor_until_stable g v = Some (Inr g')" and "renderable g"
  shows "renderable g'"
  using stable_loop_to_html [where v = v, OF keeps assms(2) [unfolded apply_visitor_until_stable_def] assms(3)]
  by simp


subsection \<open>The two main loops\<close>

lemma loop_body_same:
  assumes ok: "renderable g"
  shows "html_loop_body g = loop_body g"
    and "loop_body g = Some (Inr (Again g')) \<Longrightarrow> renderable g'"
    and "loop_body g = Some (Inr (Done g')) \<Longrightarrow> renderable g'"
proof -
  have erode: "html_apply_visitor_until_stable g visitor_for_path
                 = apply_visitor_until_stable g visitor_for_path"
    using path_renderable ok by (rule until_stable_same)
  have all: "html_loop_body g = loop_body g
      \<and> (\<forall>k. loop_body g = Some (Inr (Again k)) \<longrightarrow> renderable k)
      \<and> (\<forall>k. loop_body g = Some (Inr (Done k)) \<longrightarrow> renderable k)"
  proof (cases "apply_visitor_until_stable g visitor_for_path")
    case None
    then show ?thesis by (simp add: html_loop_body_def loop_body_def erode)
  next
    case (Some res)
    show ?thesis
    proof (cases res)
      case (Inl e)
      with Some show ?thesis by (simp add: html_loop_body_def loop_body_def erode)
    next
      case (Inr g1)
      with Some have run1: "apply_visitor_until_stable g visitor_for_path = Some (Inr g1)" by simp
      have g1: "renderable g1" using path_renderable run1 ok by (rule until_stable_renderable)
      show ?thesis
      proof (cases "apply_visitor_compute_max g1 visitor_for_adjacency")
        case (Inl e)
        with run1 show ?thesis by (simp add: html_loop_body_def loop_body_def erode)
      next
        case (Inr p)
        obtain g2 a where p: "p = (g2, a)" by (cases p)
        with Inr have max1: "apply_visitor_compute_max g1 visitor_for_adjacency = Inr (g2, a)" by simp
        then have g2: "g2 = g1" by (rule adjacency_max_same_grid)
        show ?thesis
        proof (cases "a > 2")
          case False
          with run1 max1 g1 g2 show ?thesis
            by (simp add: html_loop_body_def loop_body_def erode)
        next
          case True
          have spread: "html_apply_visitor_until_stable g2 visitor_for_path_length
                          = apply_visitor_until_stable g2 visitor_for_path_length"
            using path_length_renderable g1 unfolding g2 by (rule until_stable_same)
          show ?thesis
          proof (cases "apply_visitor_until_stable g2 visitor_for_path_length")
            case None
            with run1 max1 True show ?thesis
              by (simp add: html_loop_body_def loop_body_def erode spread)
          next
            case (Some res2)
            show ?thesis
            proof (cases res2)
              case (Inl e)
              with Some run1 max1 True show ?thesis
                by (simp add: html_loop_body_def loop_body_def erode spread)
            next
              case (Inr g3)
              with Some have run2: "apply_visitor_until_stable g2 visitor_for_path_length = Some (Inr g3)"
                by simp
              have g3: "renderable g3"
                using path_length_renderable run2 g1 unfolding g2 by (rule until_stable_renderable)
              show ?thesis
              proof (cases "apply_visitor_compute_max g3 visitor_for_length")
                case (Inl e)
                with run1 max1 True run2 show ?thesis
                  by (simp add: html_loop_body_def loop_body_def erode spread)
              next
                case (Inr q)
                obtain g4 d where q: "q = (g4, d)" by (cases q)
                with Inr have max2: "apply_visitor_compute_max g3 visitor_for_length = Inr (g4, d)"
                  by simp
                then have g4: "g4 = g3" by (rule length_max_same_grid)
                show ?thesis
                proof (cases "py_str d")
                  case (Inl e)
                  with run1 max1 True run2 max2 show ?thesis
                    by (simp add: html_loop_body_def loop_body_def erode spread)
                next
                  case (Inr t)
                  have brk: "break_loops g4 t = Inr (map (map (broken t)) g4)"
                    by (rule break_loops_map)
                  have g5: "renderable (map (map (broken t)) g4)"
                    using brk g3 unfolding g4 by (rule break_loops_renderable)
                  then obtain out where "html_svg_write_matrix (map (map (broken t)) g4) = Inr out"
                    using render_returns by blast
                  with run1 max1 True run2 max2 Inr brk g5 show ?thesis
                    by (simp add: html_loop_body_def loop_body_def erode spread)
                qed
              qed
            qed
          qed
        qed
      qed
    qed
  qed
  from all show "html_loop_body g = loop_body g" by simp
  from all show "loop_body g = Some (Inr (Again g')) \<Longrightarrow> renderable g'" by simp
  from all show "loop_body g = Some (Inr (Done g')) \<Longrightarrow> renderable g'" by simp
qed

lemma main_loop_to_html:
  assumes run: "main_loop g = Some res" and ok: "renderable g"
  shows "html_main_loop g = Some res \<and> (\<forall>g'. res = Inr g' \<longrightarrow> renderable g')"
proof -
  define Q where "Q h r \<longleftrightarrow>
      (renderable h \<longrightarrow> html_main_loop h = Some r \<and> (\<forall>h'. r = Inr h' \<longrightarrow> renderable h'))"
    for h :: grid and r :: "error + grid"
  have "Q g res"
  proof (rule main_loop.raw_induct [where P = Q])
    show "main_loop g = Some res" by fact
  next
    fix loop :: "grid \<Rightarrow> (error + grid) option" and h :: grid and r :: "error + grid"
    assume ih: "\<And>h r. loop h = Some r \<Longrightarrow> Q h r"
      and body: "(case loop_body h of
                    None \<Rightarrow> None
                  | Some (Inl e) \<Rightarrow> Some (Inl e)
                  | Some (Inr (Again g)) \<Rightarrow> loop g
                  | Some (Inr (Done g)) \<Rightarrow> Some (Inr g)) = Some r"
    show "Q h r"
      unfolding Q_def
    proof (intro impI)
      assume h: "renderable h"
      note same = loop_body_same(1) [OF h]
      from body obtain s where s: "loop_body h = Some s" by (cases "loop_body h") auto
      show "html_main_loop h = Some r \<and> (\<forall>h'. r = Inr h' \<longrightarrow> renderable h')"
      proof (cases s)
        case (Inl e)
        with s body show ?thesis by (subst html_main_loop.simps) (auto simp: same)
      next
        case (Inr st)
        show ?thesis
        proof (cases st)
          case (Again k)
          with Inr s have b: "loop_body h = Some (Inr (Again k))" by simp
          then have k: "renderable k" by (rule loop_body_same(2) [OF h])
          from body b have "loop k = Some r" by simp
          from ih [OF this] k have "html_main_loop k = Some r" "\<forall>h'. r = Inr h' \<longrightarrow> renderable h'"
            by (simp_all add: Q_def)
          then show ?thesis using b by (subst html_main_loop.simps) (simp add: same)
        next
          case (Done k)
          with Inr s have b: "loop_body h = Some (Inr (Done k))" by simp
          then have k: "renderable k" by (rule loop_body_same(3) [OF h])
          from body b have "r = Inr k" by simp
          then show ?thesis using b k by (subst html_main_loop.simps) (simp add: same)
        qed
      qed
    qed
  qed
  with ok show ?thesis by (simp add: Q_def)
qed

lemma html_to_main_loop:
  assumes run: "html_main_loop g = Some res" and ok: "renderable g"
  shows "main_loop g = Some res"
proof -
  define Q where "Q h r \<longleftrightarrow> (renderable h \<longrightarrow> main_loop h = Some r)"
    for h :: grid and r :: "error + grid"
  have "Q g res"
  proof (rule html_main_loop.raw_induct [where P = Q])
    show "html_main_loop g = Some res" by fact
  next
    fix loop :: "grid \<Rightarrow> (error + grid) option" and h :: grid and r :: "error + grid"
    assume ih: "\<And>h r. loop h = Some r \<Longrightarrow> Q h r"
      and body: "(case html_loop_body h of
                    None \<Rightarrow> None
                  | Some (Inl e) \<Rightarrow> Some (Inl e)
                  | Some (Inr (Again g)) \<Rightarrow> loop g
                  | Some (Inr (Done g)) \<Rightarrow> Some (Inr g)) = Some r"
    show "Q h r"
      unfolding Q_def
    proof (intro impI)
      assume h: "renderable h"
      note same = loop_body_same(1) [OF h]
      from body obtain s where s: "loop_body h = Some s"
        unfolding same by (cases "loop_body h") auto
      show "main_loop h = Some r"
      proof (cases s)
        case (Inl e)
        with s body show ?thesis unfolding same by (subst main_loop.simps) auto
      next
        case (Inr st)
        show ?thesis
        proof (cases st)
          case (Again k)
          with Inr s have b: "loop_body h = Some (Inr (Again k))" by simp
          then have k: "renderable k" by (rule loop_body_same(2) [OF h])
          from body b have "loop k = Some r" unfolding same by simp
          from ih [OF this] k have "main_loop k = Some r" by (simp add: Q_def)
          then show ?thesis using b by (subst main_loop.simps) simp
        next
          case (Done k)
          with Inr s have b: "loop_body h = Some (Inr (Done k))" by simp
          from body b have "r = Inr k" unfolding same by simp
          then show ?thesis using b by (subst main_loop.simps) simp
        qed
      qed
    qed
  qed
  with ok show ?thesis by (simp add: Q_def)
qed

lemma main_same:
  assumes "renderable g"
  shows "html_main g = main g"
proof -
  from assms obtain out where first: "html_svg_write_matrix g = Inr out"
    using render_returns by blast
  show ?thesis
  proof (cases "main_loop g")
    case None
    have "html_main_loop g = None"
    proof (cases "html_main_loop g")
      case (Some res)
      with html_to_main_loop [OF Some assms] None show ?thesis by simp
    qed simp
    with None first show ?thesis by (simp add: html_main_def main_def)
  next
    case (Some res)
    from main_loop_to_html [OF Some assms]
    have h: "html_main_loop g = Some res" and r: "\<forall>g'. res = Inr g' \<longrightarrow> renderable g'"
      by simp_all
    show ?thesis
    proof (cases res)
      case (Inl e)
      with Some h first show ?thesis by (simp add: html_main_def main_def)
    next
      case (Inr g')
      with r obtain out' where "html_svg_write_matrix g' = Inr out'"
        using render_returns by blast
      with Inr Some h first show ?thesis by (simp add: html_main_def main_def)
    qed
  qed
qed

text \<open>
  Claim C10, as stated for every grid: the HTML program transforms a grid as the plain
  program does, since drawing never changes the grid. Drawing can raise, though: on the
  empty grid (no first row), on a grid with an empty label, and on a grid with a row
  shorter than the first, \<^verbatim>\<open>apply_visitor_until_stable\<close> of the HTML file ends in
  \<^verbatim>\<open>IndexError\<close> where the plain one returns the grid.
\<close>

theorem drawing_raises:
  "apply_visitor_until_stable [] visitor_for_path = Some (Inr [])
   \<and> html_apply_visitor_until_stable [] visitor_for_path = Some (Inl IndexError)
   \<and> apply_visitor_until_stable [['''']] visitor_for_path = Some (Inr [['''']])
   \<and> html_apply_visitor_until_stable [['''']] visitor_for_path = Some (Inl IndexError)
   \<and> apply_visitor_until_stable [[''X'', ''X''], [''X'']] visitor_for_path
       = Some (Inr [[''X'', ''X''], [''X'']])
   \<and> html_apply_visitor_until_stable [[''X'', ''X''], [''X'']] visitor_for_path
       = Some (Inl IndexError)
   \<and> main [] = Some (Inr [])
   \<and> html_main [] = Some (Inl IndexError)"
  by code_simp

text \<open>
  Claim C10, amended to the grids that can be drawn (a first row exists, no row is shorter
  than it, and no label in the drawn columns is empty): on such a grid
  \<^verbatim>\<open>apply_visitor_until_stable\<close> with either mutating rule and the whole main loop give
  the same result in both files, a returned grid, an exception or a run that never
  ends. The cell rules, \<^verbatim>\<open>apply_visitor_compute_max\<close> and \<^verbatim>\<open>break_loops\<close> are the
  same text in both files.
\<close>

theorem html_variant_same_on_drawable_grids:
  assumes "renderable g"
  shows "html_apply_visitor_until_stable g visitor_for_path
           = apply_visitor_until_stable g visitor_for_path
         \<and> html_apply_visitor_until_stable g visitor_for_path_length
           = apply_visitor_until_stable g visitor_for_path_length
         \<and> html_main g = main g"
proof (intro conjI)
  show "html_apply_visitor_until_stable g visitor_for_path
          = apply_visitor_until_stable g visitor_for_path"
    using path_renderable assms by (rule until_stable_same)
  show "html_apply_visitor_until_stable g visitor_for_path_length
          = apply_visitor_until_stable g visitor_for_path_length"
    using path_length_renderable assms by (rule until_stable_same)
  show "html_main g = main g"
    using assms by (rule main_same)
qed

theorem html_variant_same_on_drawable_grids_witness:
  "renderable [[''S'', '' '', ''E'']]
   \<and> html_apply_visitor_until_stable [[''S'', '' '', ''E'']] visitor_for_path_length
       = Some (Inr [[''S'', ''1'', ''E'']])
   \<and> apply_visitor_until_stable [[''S'', '' '', ''E'']] visitor_for_path_length
       = Some (Inr [[''S'', ''1'', ''E'']])"
proof -
  have r: "renderable [[''S'', '' '', ''E'']]"
    by (simp add: renderable_def less_Suc_eq)
  have e: "apply_visitor_until_stable [[''S'', '' '', ''E'']] visitor_for_path_length
             = Some (Inr [[''S'', ''1'', ''E'']])"
    by code_simp
  show ?thesis
    using r e html_variant_same_on_drawable_grids [OF r] by simp
qed

end
